theory Spec2Isabelle
  imports Complex_Main "HOL-Library.Word"
begin

section \<open>The terrain height loader: data model\<close>

text \<open>
  Owner identities are opaque handles that are only ever compared; object identities of
  tiles, requests and promises are addresses in explicit object stores. Coordinates are
  the integer triples the loader is called with.
\<close>

type_synonym owner = nat
type_synonym tref = nat
type_synonym rid = nat
type_synonym pid = nat

subsection \<open>UsageTracker\<close>

text \<open>
  The field \<open>users\<close> is a JavaScript \<open>Set\<close>: a duplicate-free collection in insertion
  order. \<open>Set.add\<close> appends an element that is not yet there, \<open>Set.delete\<close> takes the
  element out, \<open>Set.size\<close> is the number of elements.
\<close>

definition set_add :: "'a \<Rightarrow> 'a list \<Rightarrow> 'a list" where
  "set_add a xs = (if a \<in> set xs then xs else xs @ [a])"

definition set_delete :: "'a \<Rightarrow> 'a list \<Rightarrow> 'a list" where
  "set_delete a xs = removeAll a xs"

record UsageTracker =
  users :: "owner list"

definition use :: "owner \<Rightarrow> UsageTracker \<Rightarrow> UsageTracker" where
  "use ident t = t\<lparr>users := set_add ident (users t)\<rparr>"

definition release :: "owner \<Rightarrow> UsageTracker \<Rightarrow> UsageTracker" where
  "release ident t = t\<lparr>users := set_delete ident (users t)\<rparr>"

definition isUsed :: "UsageTracker \<Rightarrow> bool" where
  "isUsed t = (length (users t) > 0)"

subsection \<open>Decoded elevation payloads\<close>

text \<open>
  An \<open>ImageBitmap\<close> is a raster of \<open>imgWidth * imgHeight\<close> pixels; \<open>imgData\<close> is the
  byte array that \<open>getImageData\<close> reads from it (four bytes per pixel: red, green, blue,
  alpha), given as its indexing function.
\<close>

record image =
  imgWidth :: nat
  imgHeight :: nat
  imgData :: "nat \<Rightarrow> 8 word"

text \<open>
  JavaScript numbers are IEEE 754 binary64 values and a \<open>Float32Array\<close> stores binary32
  values. Both are modelled exactly, as the real numbers they denote: \<open>round_to p emin\<close> is
  rounding to the nearest value with a \<open>p\<close>-bit significand, ties to even, with gradual
  underflow below \<open>2 ^ emin\<close>; \<open>exponent_of q\<close> is the \<open>e\<close> with
  \<open>2 ^ e \<le> \<bar>q\<bar> < 2 ^ (e + 1)\<close>. Overflow is not modelled: every value the decoder computes
  is below \<open>2 ^ 21\<close> in magnitude.
\<close>

definition round_half_even :: "real \<Rightarrow> int" where
  "round_half_even q =
     (let f = \<lfloor>q\<rfloor>; d = q - of_int f
      in if d < 1 / 2 then f else if d > 1 / 2 then f + 1
         else if even f then f else f + 1)"

definition pow2 :: "int \<Rightarrow> real" where
  "pow2 e = (if 0 \<le> e then 2 ^ nat e else 1 / 2 ^ nat (- e))"

function ilog2 :: "nat \<Rightarrow> nat" where
  "ilog2 n = (if n < 2 then 0 else Suc (ilog2 (n div 2)))"
  by pat_completeness auto
termination
  by (relation "measure id") auto

declare ilog2.simps [simp del]

definition exponent_of :: "real \<Rightarrow> int" where
  "exponent_of q =
     (let a = \<bar>q\<bar>
      in if 1 \<le> a then int (ilog2 (nat \<lfloor>a\<rfloor>))
         else - int (Suc (ilog2 (nat (\<lceil>1 / a\<rceil> - 1)))))"

definition round_to :: "nat \<Rightarrow> int \<Rightarrow> real \<Rightarrow> real" where
  "round_to p emin q =
     (if q = 0 then 0
      else let e = max (exponent_of q) emin; u = pow2 (e - int p + 1)
           in of_int (round_half_even (q / u)) * u)"

definition fl64 :: "real \<Rightarrow> real" where
  "fl64 = round_to 53 (- 1022)"

definition fl32 :: "real \<Rightarrow> real" where
  "fl32 = round_to 24 (- 126)"

record TerrainHeightLoaderBitmap =
  bitmap :: image
  data :: "real list"
  width :: nat
  height :: nat

text \<open>
  The body of the decoding loop: \<open>data[i] = -10000 + (r * 256 * 256 + g * 256 + b) * 0.1\<close>.
  The integer part is exact in binary64 (it is below \<open>2 ^ 24\<close>); the literal \<open>0.1\<close>, the
  product and the sum are each rounded to binary64, and the store into the
  \<open>Float32Array\<close> rounds to binary32.
\<close>

definition decodePixel :: "8 word \<Rightarrow> 8 word \<Rightarrow> 8 word \<Rightarrow> real" where
  "decodePixel r g b =
     fl32 (fl64 (- 10000 + fl64 (of_nat (unat r * 256 * 256 + unat g * 256 + unat b) * fl64 (1 / 10))))"

definition decodeBitmap :: "image \<Rightarrow> TerrainHeightLoaderBitmap" where
  "decodeBitmap img =
     \<lparr>bitmap = img,
      data = map (\<lambda>i. decodePixel (imgData img (i * 4)) (imgData img (i * 4 + 1)) (imgData img (i * 4 + 2)))
               [0 ..< imgWidth img * imgHeight img],
      width = imgWidth img,
      height = imgHeight img\<rparr>"

subsection \<open>HeightLoaderTile\<close>

text \<open>
  \<open>levels\<close> is a \<open>Map\<close> from level numbers to payloads. \<open>delete\<close> releases the resources
  of each payload and changes nothing the loader reads, so it has no counterpart here.
\<close>

record HeightLoaderTile =
  tracker :: UsageTracker
  levels :: "nat \<rightharpoonup> TerrainHeightLoaderBitmap"

definition newTile :: HeightLoaderTile where
  "newTile = \<lparr>tracker = \<lparr>users = []\<rparr>, levels = Map.empty\<rparr>"

definition setLevel :: "nat \<Rightarrow> TerrainHeightLoaderBitmap \<Rightarrow> HeightLoaderTile \<Rightarrow> HeightLoaderTile" where
  "setLevel levelId bm t = t\<lparr>levels := (levels t)(levelId \<mapsto> bm)\<rparr>"

definition getLevel :: "nat \<Rightarrow> HeightLoaderTile \<Rightarrow> TerrainHeightLoaderBitmap option" where
  "getLevel levelId t = levels t levelId"

subsection \<open>Requests and the request queue\<close>

text \<open>
  A waiting-list item is the closure built in \<open>getOrLoadTile\<close>: it captures the
  coordinate, the owner and the \<open>resolve\<close> function of the promise handed to the caller.
\<close>

record waitingListItem =
  item_x :: int
  item_y :: int
  item_zoom :: int
  item_owner :: owner
  item_promise :: pid

record Request =
  req_x :: int
  req_y :: int
  req_zoom :: int
  waitingList :: "waitingListItem list"

text \<open>
  The two arrays of the queue hold references to request objects; the objects themselves
  live in the store \<open>rid \<Rightarrow> Request\<close> of the loader state.
\<close>

record RequestQueue =
  queue :: "rid list"
  queueInProgress :: "rid list"

definition add :: "rid \<Rightarrow> RequestQueue \<Rightarrow> RequestQueue" where
  "add request q = q\<lparr>queue := queue q @ [request]\<rparr>"

definition get :: "RequestQueue \<Rightarrow> rid option \<times> RequestQueue" where
  "get q =
     (case queue q of
        [] \<Rightarrow> (None, q)
      | request # rest \<Rightarrow>
          (Some request, q\<lparr>queue := rest, queueInProgress := queueInProgress q @ [request]\<rparr>))"

definition remove :: "rid \<Rightarrow> RequestQueue \<Rightarrow> RequestQueue" where
  "remove request q = q\<lparr>queueInProgress := remove1 request (queueInProgress q)\<rparr>"

definition matches :: "(rid \<Rightarrow> Request) \<Rightarrow> int \<Rightarrow> int \<Rightarrow> int \<Rightarrow> rid \<Rightarrow> bool" where
  "matches objs x y zoom r \<longleftrightarrow> req_x (objs r) = x \<and> req_y (objs r) = y \<and> req_zoom (objs r) = zoom"

definition find_request :: "(rid \<Rightarrow> Request) \<Rightarrow> RequestQueue \<Rightarrow> int \<Rightarrow> int \<Rightarrow> int \<Rightarrow> rid option" where
  "find_request objs q x y zoom =
     (case List.find (matches objs x y zoom) (queue q) of
        Some queueResult \<Rightarrow> Some queueResult
      | None \<Rightarrow> List.find (matches objs x y zoom) (queueInProgress q))"

definition size_queue :: "RequestQueue \<Rightarrow> nat" where
  "size_queue q = length (queue q)"

subsection \<open>The loader\<close>

text \<open>
  A promise returned by \<open>getOrLoadTile\<close> is pending until its \<open>resolve\<close> function is
  called with a tile.
\<close>

datatype promise = Pending | Resolved tref

text \<open>
  The loader state: the three fields of the class (\<open>requestQueue\<close> is the field \<open>queue\<close>),
  the object stores for tiles, requests and promises with their allocation counters, and
  \<open>fetched\<close>, the log of the network fetches issued so far (one entry per call of
  \<open>load\<close>, naming the request it was called for).
\<close>

record TerrainHeightLoader =
  tiles :: "string \<rightharpoonup> tref"
  activeRequests :: "rid list"
  requestQueue :: RequestQueue
  tileObjs :: "tref \<Rightarrow> HeightLoaderTile"
  nextTile :: nat
  requestObjs :: "rid \<Rightarrow> Request"
  nextRequest :: nat
  promises :: "pid \<Rightarrow> promise"
  nextPromise :: nat
  fetched :: "rid list"

definition maxConcurrentRequests :: nat where
  "maxConcurrentRequests = 2"

definition init :: TerrainHeightLoader where
  "init =
     \<lparr>tiles = Map.empty, activeRequests = [], requestQueue = \<lparr>queue = [], queueInProgress = []\<rparr>,
      tileObjs = (\<lambda>_. newTile), nextTile = 0,
      requestObjs = (\<lambda>_. \<lparr>req_x = 0, req_y = 0, req_zoom = 0, waitingList = []\<rparr>), nextRequest = 0,
      promises = (\<lambda>_. Pending), nextPromise = 0,
      fetched = []\<rparr>"

text \<open>
  The cache key is the template string \<open>`${x},${y},${zoom}`\<close>: the decimal numerals of
  the three integers, separated by commas.
\<close>

definition digit :: "nat \<Rightarrow> char" where
  "digit d = ''0123456789'' ! d"

function digits :: "nat \<Rightarrow> string" where
  "digits n = (if n < 10 then [digit n] else digits (n div 10) @ [digit (n mod 10)])"
  by pat_completeness auto
termination
  by (relation "measure id") auto

declare digits.simps [simp del]

definition number_string :: "int \<Rightarrow> string" where
  "number_string i = (if i < 0 then CHR ''-'' # digits (nat (- i)) else digits (nat i))"

definition getTileKey :: "int \<Rightarrow> int \<Rightarrow> int \<Rightarrow> string" where
  "getTileKey x y zoom = number_string x @ '','' @ number_string y @ '','' @ number_string zoom"

definition getTile :: "TerrainHeightLoader \<Rightarrow> int \<Rightarrow> int \<Rightarrow> int \<Rightarrow> tref option" where
  "getTile s x y zoom = tiles s (getTileKey x y zoom)"

definition addTile :: "int \<Rightarrow> int \<Rightarrow> int \<Rightarrow> TerrainHeightLoader \<Rightarrow> tref \<times> TerrainHeightLoader" where
  "addTile x y zoom s =
     (let tile = nextTile s
      in (tile, s\<lparr>tiles := (tiles s)(getTileKey x y zoom \<mapsto> tile),
                  tileObjs := (tileObjs s)(tile := newTile),
                  nextTile := Suc tile\<rparr>))"

definition addBitmap ::
  "TerrainHeightLoaderBitmap \<Rightarrow> int \<Rightarrow> int \<Rightarrow> int \<Rightarrow> nat \<Rightarrow> TerrainHeightLoader \<Rightarrow> TerrainHeightLoader" where
  "addBitmap bm x y zoom level s =
     (let (tile, s1) = (case getTile s x y zoom of
                          None \<Rightarrow> addTile x y zoom s
                        | Some t \<Rightarrow> (t, s))
      in s1\<lparr>tileObjs := (tileObjs s1)(tile := setLevel level bm (tileObjs s1 tile))\<rparr>)"

definition getBitmap ::
  "TerrainHeightLoader \<Rightarrow> int \<Rightarrow> int \<Rightarrow> int \<Rightarrow> nat \<Rightarrow> TerrainHeightLoaderBitmap option" where
  "getBitmap s x y zoom level =
     (case getTile s x y zoom of
        None \<Rightarrow> None
      | Some tile \<Rightarrow> getLevel level (tileObjs s tile))"

text \<open>\<open>tile.tracker.use(owner)\<close> and \<open>tile.tracker.release(owner)\<close> on a tile object.\<close>

definition tracker_use :: "tref \<Rightarrow> owner \<Rightarrow> TerrainHeightLoader \<Rightarrow> TerrainHeightLoader" where
  "tracker_use tile ident s =
     s\<lparr>tileObjs := (tileObjs s)(tile := (tileObjs s tile)\<lparr>tracker := use ident (tracker (tileObjs s tile))\<rparr>)\<rparr>"

definition tracker_release :: "tref \<Rightarrow> owner \<Rightarrow> TerrainHeightLoader \<Rightarrow> TerrainHeightLoader" where
  "tracker_release tile ident s =
     s\<lparr>tileObjs := (tileObjs s)(tile := (tileObjs s tile)\<lparr>tracker := release ident (tracker (tileObjs s tile))\<rparr>)\<rparr>"

text \<open>
  \<open>getOrLoadTile\<close> returns the promise it hands to the caller. On a hit the promise is
  resolved with the cached tile. On a miss the executor of the new promise runs at once:
  it builds the waiting-list item and either pushes it onto the request found for the
  coordinate or adds a new request to the queue.
\<close>

definition getOrLoadTile ::
  "int \<Rightarrow> int \<Rightarrow> int \<Rightarrow> owner \<Rightarrow> TerrainHeightLoader \<Rightarrow> pid \<times> TerrainHeightLoader" where
  "getOrLoadTile x y zoom ident s =
     (let p = nextPromise s
      in case getTile s x y zoom of
           Some tile \<Rightarrow>
             (p, (tracker_use tile ident s)\<lparr>promises := (promises s)(p := Resolved tile), nextPromise := Suc p\<rparr>)
         | None \<Rightarrow>
             (let waitingListItem =
                    \<lparr>item_x = x, item_y = y, item_zoom = zoom, item_owner = ident, item_promise = p\<rparr>;
                  s1 = s\<lparr>promises := (promises s)(p := Pending), nextPromise := Suc p\<rparr>
              in case find_request (requestObjs s) (requestQueue s) x y zoom of
                   Some request \<Rightarrow>
                     (p, s1\<lparr>requestObjs := (requestObjs s)
                              (request := (requestObjs s request)
                                 \<lparr>waitingList := waitingList (requestObjs s request) @ [waitingListItem]\<rparr>)\<rparr>)
                 | None \<Rightarrow>
                     (let newRequest = nextRequest s
                      in (p, s1\<lparr>requestObjs := (requestObjs s)
                                   (newRequest := \<lparr>req_x = x, req_y = y, req_zoom = zoom,
                                                   waitingList = [waitingListItem]\<rparr>),
                                 nextRequest := Suc newRequest,
                                 requestQueue := add newRequest (requestQueue s)\<rparr>))))"

text \<open>
  The eviction pass: every cache entry whose tile is unused is deleted; the others stay.
\<close>

definition removeUnusedTiles :: "TerrainHeightLoader \<Rightarrow> TerrainHeightLoader" where
  "removeUnusedTiles s =
     s\<lparr>tiles := (\<lambda>key. case tiles s key of
                          None \<Rightarrow> None
                        | Some tile \<Rightarrow> if \<not> isUsed (tracker (tileObjs s tile)) then None else Some tile)\<rparr>"

text \<open>
  The admission loop. Each round takes the head of the queue, adds it to
  \<open>activeRequests\<close> and calls \<open>load\<close>, which runs up to its first \<open>await\<close>: the fetch is
  issued. \<open>get\<close> cannot return \<open>undefined\<close> here, since the loop condition has just seen
  a non-empty queue; that branch ends the loop.
\<close>

function processQueue :: "TerrainHeightLoader \<Rightarrow> TerrainHeightLoader" where
  "processQueue s =
     (if size_queue (requestQueue s) > 0 \<and> length (activeRequests s) < maxConcurrentRequests
      then (case get (requestQueue s) of
              (Some task, q) \<Rightarrow>
                processQueue (s\<lparr>requestQueue := q,
                                activeRequests := set_add task (activeRequests s),
                                fetched := fetched s @ [task]\<rparr>)
            | (None, q) \<Rightarrow> s)
      else s)"
  by pat_completeness auto
termination
  by (relation "measure (\<lambda>s. length (queue (requestQueue s)))")
     (auto simp: get_def split: list.splits)

declare processQueue.simps [simp del]

definition update :: "TerrainHeightLoader \<Rightarrow> TerrainHeightLoader" where
  "update s = processQueue (removeUnusedTiles s)"

text \<open>
  The rest of \<open>load\<close>, from the arrival of the response on. The response carries its
  status and the raster that \<open>createImageBitmap\<close> makes of its body. Between the last
  \<open>await\<close> and the end of \<open>load\<close> nothing else runs, so this part is one step.
  \<open>downscale\<close> is the method of \<open>TerrainHeightLoaderBitmap\<close>, a class that is not part
  of the loader: it is a parameter.
\<close>

record response =
  status :: int
  body :: image

definition load ::
  "(TerrainHeightLoaderBitmap \<Rightarrow> TerrainHeightLoaderBitmap) \<Rightarrow> int \<Rightarrow> int \<Rightarrow> int \<Rightarrow> nat \<Rightarrow>
     response \<Rightarrow> TerrainHeightLoader \<Rightarrow> TerrainHeightLoader" where
  "load downscale x y zoom downscaleTimes resp s =
     (if status resp \<noteq> 200 then s
      else let decoded = decodeBitmap (body resp);
               s1 = addBitmap decoded x y zoom 0 s
           in fold (\<lambda>i. addBitmap (downscale decoded) (x div 2 ^ i) (y div 2 ^ i) zoom (i + 1))
                [0 ..< downscaleTimes] s1)"

text \<open>
  A waiting-list item, when called, reads the cache and dereferences what it gets:
  \<open>tile.tracker.use(owner)\<close> throws a \<open>TypeError\<close> when \<open>getTile\<close> returned \<open>null\<close>. The
  loop over the waiting list stops at the first item that throws; what was done before
  stays done.
\<close>

datatype error = TypeError

definition resolve_item :: "waitingListItem \<Rightarrow> TerrainHeightLoader \<Rightarrow> error option \<times> TerrainHeightLoader" where
  "resolve_item item s =
     (case getTile s (item_x item) (item_y item) (item_zoom item) of
        None \<Rightarrow> (Some TypeError, s)
      | Some tile \<Rightarrow>
          (None, (tracker_use tile (item_owner item) s)
                   \<lparr>promises := (promises s)(item_promise item := Resolved tile)\<rparr>))"

fun resolve_all :: "waitingListItem list \<Rightarrow> TerrainHeightLoader \<Rightarrow> error option \<times> TerrainHeightLoader" where
  "resolve_all [] s = (None, s)"
| "resolve_all (item # rest) s =
     (case resolve_item item s of
        (Some e, s1) \<Rightarrow> (Some e, s1)
      | (None, s1) \<Rightarrow> resolve_all rest s1)"

text \<open>The callback that \<open>processQueue\<close> attaches to the promise of \<open>load\<close>.\<close>

definition completion :: "rid \<Rightarrow> TerrainHeightLoader \<Rightarrow> error option \<times> TerrainHeightLoader" where
  "completion task s =
     (let s1 = s\<lparr>activeRequests := set_delete task (activeRequests s),
                 requestQueue := remove task (requestQueue s)\<rparr>
      in resolve_all (waitingList (requestObjs s1 task)) s1)"

text \<open>
  The end of a pipeline run: \<open>load\<close> finishes for the coordinate of the task (with
  \<open>downscaleTimes = 1\<close>, as \<open>processQueue\<close> calls it) and its callback runs in the same
  microtask checkpoint.
\<close>

definition finish ::
  "(TerrainHeightLoaderBitmap \<Rightarrow> TerrainHeightLoaderBitmap) \<Rightarrow> rid \<Rightarrow> response \<Rightarrow>
     TerrainHeightLoader \<Rightarrow> error option \<times> TerrainHeightLoader" where
  "finish downscale task resp s =
     completion task
       (load downscale (req_x (requestObjs s task)) (req_y (requestObjs s task))
          (req_zoom (requestObjs s task)) 1 resp s)"

subsection \<open>Runs of the loader\<close>

text \<open>
  Everything runs on one thread, one task after the other. The tasks that touch the
  loader are: a call of \<open>getOrLoadTile\<close>, a call of \<open>update\<close>, the end of the pipeline of
  an active request, and a consumer calling \<open>use\<close> or \<open>release\<close> on the tracker of a tile
  object. A pipeline whose response never comes, or whose image fails to decode, never
  ends: no event stands for it.
\<close>

datatype event =
  GetOrLoadTile int int int owner
| Update
| Finish rid response
| TrackerUse tref owner
| TrackerRelease tref owner

fun step ::
  "(TerrainHeightLoaderBitmap \<Rightarrow> TerrainHeightLoaderBitmap) \<Rightarrow> event \<Rightarrow> TerrainHeightLoader \<Rightarrow> TerrainHeightLoader" where
  "step downscale (GetOrLoadTile x y zoom ident) s = snd (getOrLoadTile x y zoom ident s)"
| "step downscale Update s = update s"
| "step downscale (Finish task resp) s =
     (if task \<in> set (activeRequests s) then snd (finish downscale task resp s) else s)"
| "step downscale (TrackerUse tile ident) s = (if tile < nextTile s then tracker_use tile ident s else s)"
| "step downscale (TrackerRelease tile ident) s = (if tile < nextTile s then tracker_release tile ident s else s)"

definition run ::
  "(TerrainHeightLoaderBitmap \<Rightarrow> TerrainHeightLoaderBitmap) \<Rightarrow> event list \<Rightarrow> TerrainHeightLoader \<Rightarrow> TerrainHeightLoader" where
  "run downscale es s = fold (step downscale) es s"

subsection \<open>Concrete inputs\<close>

text \<open>A one-pixel raster and two responses, for the concrete runs below.\<close>

definition example_image :: image where
  "example_image = \<lparr>imgWidth = 1, imgHeight = 1, imgData = (\<lambda>_. 0)\<rparr>"

definition ok_response :: response where
  "ok_response = \<lparr>status = 200, body = example_image\<rparr>"

definition not_found_response :: response where
  "not_found_response = \<lparr>status = 404, body = example_image\<rparr>"

subsection \<open>Well-formed states\<close>

text \<open>Every tile object the cache refers to has been allocated.\<close>

definition tiles_wf :: "TerrainHeightLoader \<Rightarrow> bool" where
  "tiles_wf s \<longleftrightarrow> (\<forall>key tile. tiles s key = Some tile \<longrightarrow> tile < nextTile s)"

subsection \<open>Invariants of the scheduler\<close>

text \<open>
  The requests that exist: those waiting in the queue and those in progress. A request
  is identified with its coordinate by \<open>coord\<close>.
\<close>

definition live :: "TerrainHeightLoader \<Rightarrow> rid list" where
  "live s = queue (requestQueue s) @ queueInProgress (requestQueue s)"

definition coord :: "TerrainHeightLoader \<Rightarrow> rid \<Rightarrow> int \<times> int \<times> int" where
  "coord s r = (req_x (requestObjs s r), req_y (requestObjs s r), req_zoom (requestObjs s r))"

text \<open>
  \<open>queue_inv\<close>: no two existing requests have the same coordinate; \<open>activeRequests\<close> and
  the in-progress array hold the same requests; at most \<open>maxConcurrentRequests\<close> are
  active; requests are numbered in the order they were created, and the fetches issued
  so far, followed by the waiting queue, are all requests in that order.
\<close>

definition queue_inv :: "TerrainHeightLoader \<Rightarrow> bool" where
  "queue_inv s \<longleftrightarrow>
     distinct (map (coord s) (live s))
     \<and> activeRequests s = queueInProgress (requestQueue s)
     \<and> length (activeRequests s) \<le> maxConcurrentRequests
     \<and> fetched s @ queue (requestQueue s) = [0 ..< nextRequest s]
     \<and> set (queueInProgress (requestQueue s)) \<subseteq> set (fetched s)"

text \<open>
  \<open>items_inv\<close>: every waiting-list item of an existing request was built for the
  coordinate of that request, around a promise that has been allocated.
\<close>

definition items_inv :: "TerrainHeightLoader \<Rightarrow> bool" where
  "items_inv s \<longleftrightarrow>
     (\<forall>r \<in> set (live s). \<forall>item \<in> set (waitingList (requestObjs s r)).
        (item_x item, item_y item, item_zoom item) = coord s r \<and> item_promise item < nextPromise s)"

text \<open>The part of the state that scheduling reads and writes.\<close>

definition sched ::
  "TerrainHeightLoader \<Rightarrow> rid list \<times> RequestQueue \<times> (rid \<Rightarrow> Request) \<times> nat \<times> rid list" where
  "sched s = (activeRequests s, requestQueue s, requestObjs s, nextRequest s, fetched s)"

text \<open>
  \<open>unresolved p\<close>: the promise \<open>p\<close> is pending, and no request in progress has a
  waiting-list item that would resolve it.
\<close>

definition unresolved :: "pid \<Rightarrow> TerrainHeightLoader \<Rightarrow> bool" where
  "unresolved p s \<longleftrightarrow>
     p < nextPromise s \<and> promises s p = Pending
     \<and> (\<forall>r \<in> set (queueInProgress (requestQueue s)).
          \<forall>item \<in> set (waitingList (requestObjs s r)). item_promise item \<noteq> p)"

text \<open>The number that a string of decimal digits denotes.\<close>

definition digits_value :: "string \<Rightarrow> nat" where
  "digits_value cs = foldl (\<lambda>a c. 10 * a + (of_char c - 48)) 0 cs"

text \<open>
  \<open>pending_inv\<close>: every existing request has somebody waiting for it, and its
  coordinate is not in the cache.
\<close>

definition pending_inv :: "TerrainHeightLoader \<Rightarrow> bool" where
  "pending_inv s \<longleftrightarrow>
     (\<forall>r \<in> set (live s).
        waitingList (requestObjs s r) \<noteq> []
        \<and> getTile s (req_x (requestObjs s r)) (req_y (requestObjs s r)) (req_zoom (requestObjs s r)) = None)"

section \<open>UsageTracker: idempotence\<close>

lemma set_add_idem: "set_add a (set_add a xs) = set_add a xs"
  by (simp add: set_add_def)

lemma set_delete_idem: "set_delete a (set_delete a xs) = set_delete a xs"
  by (simp add: set_delete_def)

lemma set_delete_absent: "a \<notin> set xs \<Longrightarrow> set_delete a xs = xs"
  by (simp add: set_delete_def)

text \<open>
  Claim C7. \<open>use\<close> and \<open>release\<close> are idempotent: a second call with the same owner
  leaves the tracker as the first call left it, and releasing an owner that is not
  registered changes nothing (the model has no error branch, as \<open>Set.delete\<close> has none).
\<close>

theorem tracker_idempotent:
  "use ident (use ident t) = use ident t
   \<and> release ident (release ident t) = release ident t
   \<and> (ident \<notin> set (users t) \<longrightarrow> release ident t = t)"
  by (simp add: use_def release_def set_add_idem set_delete_idem set_delete_absent)

theorem tracker_idempotent_witness:
  "use 3 (use 3 \<lparr>users = [1, 2]\<rparr>) = use 3 \<lparr>users = [1, 2]\<rparr>
   \<and> release 3 (release 3 \<lparr>users = [1, 3]\<rparr>) = release 3 \<lparr>users = [1, 3]\<rparr>
   \<and> (3::nat) \<notin> set (users \<lparr>users = [1, 2]\<rparr>)
   \<and> release 3 \<lparr>users = [1, 2]\<rparr> = \<lparr>users = [1, 2]\<rparr>"
  using tracker_idempotent [of 3 "\<lparr>users = [1, 2]\<rparr>"]
    tracker_idempotent [of 3 "\<lparr>users = [1, 3]\<rparr>"]
  by simp

section \<open>Evaluating concrete runs\<close>

lemmas eval_defs =
  run_def init_def getOrLoadTile_def getTile_def find_request_def add_def matches_def update_def
  removeUnusedTiles_def processQueue.simps get_def size_queue_def maxConcurrentRequests_def
  set_add_def set_delete_def finish_def load_def completion_def remove_def resolve_item_def
  addBitmap_def addTile_def tracker_use_def tracker_release_def use_def release_def isUsed_def
  setLevel_def getLevel_def getBitmap_def newTile_def ok_response_def not_found_response_def Let_def

section \<open>The rounding model\<close>

lemma ilog2_bounds: "0 < n \<Longrightarrow> 2 ^ ilog2 n \<le> n \<and> n < 2 ^ Suc (ilog2 n)"
proof (induction n rule: ilog2.induct)
  case (1 n)
  show ?case
  proof (cases "n < 2")
    case True
    with 1(2) show ?thesis by (subst (1 2) ilog2.simps) simp
  next
    case False
    then have "0 < n div 2" by simp
    with 1(1) False have ih: "2 ^ ilog2 (n div 2) \<le> n div 2" "n div 2 < 2 ^ Suc (ilog2 (n div 2))"
      by simp_all
    have e: "ilog2 n = Suc (ilog2 (n div 2))" using False by (subst ilog2.simps) simp
    from ih(1) have "2 * 2 ^ ilog2 (n div 2) \<le> n" by linarith
    moreover from ih(2) have "n < 2 * 2 ^ Suc (ilog2 (n div 2))" by linarith
    ultimately show ?thesis by (simp add: e)
  qed
qed

lemma pow2_powi: "pow2 e = 2 powi e"
  by (simp add: pow2_def power_int_def power_one_over)

lemma pow2_neg: "pow2 (- int n) = 1 / 2 ^ n"
  by (simp only: pow2_powi power_int_minus power_int_of_nat inverse_eq_divide)

lemma exponent_of_bounds:
  assumes "q \<noteq> 0"
  shows "pow2 (exponent_of q) \<le> \<bar>q\<bar> \<and> \<bar>q\<bar> < pow2 (exponent_of q + 1)"
proof (cases "1 \<le> \<bar>q\<bar>")
  case True
  let ?n = "nat \<lfloor>\<bar>q\<bar>\<rfloor>"
  from True have f1: "1 \<le> \<lfloor>\<bar>q\<bar>\<rfloor>" by simp
  then have n: "0 < ?n" by simp
  have rn: "real ?n = of_int \<lfloor>\<bar>q\<bar>\<rfloor>" using f1 by simp
  from ilog2_bounds [OF n] have b: "2 ^ ilog2 ?n \<le> ?n" "?n + 1 \<le> 2 ^ Suc (ilog2 ?n)" by simp_all
  from b(1) have "real (2 ^ ilog2 ?n) \<le> real ?n" by (rule of_nat_mono)
  then have lo: "2 ^ ilog2 ?n \<le> \<bar>q\<bar>" unfolding rn by (simp add: le_floor_iff)
  from b(2) have "real (?n + 1) \<le> real (2 ^ Suc (ilog2 ?n))" by (rule of_nat_mono)
  then have "of_int \<lfloor>\<bar>q\<bar>\<rfloor> + 1 \<le> (2::real) ^ Suc (ilog2 ?n)" using rn by simp
  then have hi: "\<bar>q\<bar> < 2 ^ Suc (ilog2 ?n)" by linarith
  have e: "exponent_of q = int (ilog2 ?n)" using True by (simp add: exponent_of_def Let_def)
  have "int (ilog2 ?n) + 1 = int (Suc (ilog2 ?n))" by simp
  then have "pow2 (int (ilog2 ?n) + 1) = 2 ^ Suc (ilog2 ?n)" unfolding pow2_powi by (simp only: power_int_of_nat)
  with lo hi show ?thesis unfolding e by (simp add: pow2_powi)
next
  case False
  let ?t = "1 / \<bar>q\<bar>"
  let ?m = "\<lceil>?t\<rceil>"
  let ?n = "nat (?m - 1)"
  from assms False have a: "0 < \<bar>q\<bar>" "\<bar>q\<bar> < 1" by simp_all
  then have t: "1 < ?t" by simp
  then have m: "2 \<le> ?m" by linarith
  then have n: "0 < ?n" by simp
  have rn: "real ?n = of_int ?m - 1"
  proof -
    from m have "0 \<le> ?m - 1" by linarith
    then have "real (nat (?m - 1)) = of_int (?m - 1)" by (rule of_nat_nat)
    then show ?thesis by simp
  qed
  from ilog2_bounds [OF n] have b: "2 ^ ilog2 ?n \<le> ?n" "?n + 1 \<le> 2 ^ Suc (ilog2 ?n)" by simp_all
  from b(1) have "real (2 ^ ilog2 ?n) \<le> real ?n" by (rule of_nat_mono)
  then have "(2::real) ^ ilog2 ?n \<le> of_int ?m - 1" using rn by simp
  also have "\<dots> < ?t" by linarith
  finally have "2 ^ ilog2 ?n * \<bar>q\<bar> < 1" using a(1) by (simp add: field_simps)
  then have hi: "\<bar>q\<bar> < 1 / 2 ^ ilog2 ?n" by (simp add: field_simps)
  from b(2) have "real (?n + 1) \<le> real (2 ^ Suc (ilog2 ?n))" by (rule of_nat_mono)
  then have "of_int ?m \<le> (2::real) ^ Suc (ilog2 ?n)" using rn by simp
  moreover have "?t \<le> of_int ?m" by linarith
  ultimately have "?t \<le> 2 ^ Suc (ilog2 ?n)" by linarith
  then have "1 \<le> 2 ^ Suc (ilog2 ?n) * \<bar>q\<bar>" using a(1) by (simp add: field_simps)
  then have lo: "1 / 2 ^ Suc (ilog2 ?n) \<le> \<bar>q\<bar>" by (simp add: field_simps)
  have e: "exponent_of q = - int (Suc (ilog2 ?n))" using False by (simp add: exponent_of_def Let_def)
  have p1: "pow2 (- int (Suc (ilog2 ?n))) = 1 / 2 ^ Suc (ilog2 ?n)"
    by (rule pow2_neg)
  have "- int (Suc (ilog2 ?n)) + 1 = - int (ilog2 ?n)" by simp
  then have p2: "pow2 (- int (Suc (ilog2 ?n)) + 1) = 1 / 2 ^ ilog2 ?n"
    by (simp only: pow2_neg)
  from lo hi show ?thesis unfolding e p1 p2 by simp
qed

lemma round_half_even_error: "\<bar>of_int (round_half_even x) - x\<bar> \<le> 1 / 2"
  unfolding round_half_even_def Let_def by (auto simp: abs_if) linarith+

lemma round_to_error:
  "\<bar>round_to p emin q - q\<bar> \<le> pow2 (max (exponent_of q) emin - int p + 1) / 2"
proof (cases "q = 0")
  case True
  then show ?thesis by (simp add: round_to_def pow2_powi)
next
  case False
  let ?u = "pow2 (max (exponent_of q) emin - int p + 1)"
  have u: "0 < ?u" by (simp add: pow2_powi)
  have "\<bar>round_to p emin q - q\<bar> = \<bar>of_int (round_half_even (q / ?u)) - q / ?u\<bar> * ?u"
    using False u by (simp add: round_to_def Let_def abs_mult [symmetric] field_simps del: abs_mult)
  also have "\<dots> \<le> 1 / 2 * ?u"
    using round_half_even_error [of "q / ?u"] u by (intro mult_right_mono) simp_all
  finally show ?thesis by simp
qed

lemma round_to_error_below:
  assumes "\<bar>q\<bar> < pow2 k" and "emin < k"
  shows "\<bar>round_to p emin q - q\<bar> \<le> pow2 (k - int p) / 2"
proof (cases "q = 0")
  case True
  then show ?thesis by (simp add: round_to_def pow2_powi)
next
  case False
  from exponent_of_bounds [OF False] assms(1) have "pow2 (exponent_of q) < pow2 k" by linarith
  then have "exponent_of q < k"
    unfolding pow2_powi by (metis not_less one_le_numeral power_int_increasing)
  with assms(2) have "max (exponent_of q) emin - int p + 1 \<le> k - int p" by simp
  then have "pow2 (max (exponent_of q) emin - int p + 1) \<le> pow2 (k - int p)"
    unfolding pow2_powi by (intro power_int_increasing) simp_all
  with round_to_error [of p emin q] show ?thesis by linarith
qed

section \<open>The decode transform\<close>

lemma fl64_tenth: "fl64 (1 / 10) = 3602879701896397 / 36028797018963968"
  by (simp add: fl64_def round_to_def exponent_of_def ilog2.simps pow2_def round_half_even_def Let_def)

text \<open>
  The decoded sample is within \<open>1/16 + 2\<^sup>-\<^sup>3\<^sup>1\<close> of the real number
  \<open>-10000 + (R * 65536 + G * 256 + B) / 10\<close>: the binary32 store dominates the error.
\<close>

lemma decode_accuracy:
  "\<bar>decodePixel r g b - (- 10000 + real (unat r * 65536 + unat g * 256 + unat b) / 10)\<bar>
     \<le> 1 / 16 + 1 / 2 ^ 31"
proof -
  define P where "P = real (unat r * 256 * 256 + unat g * 256 + unat b)"
  define c :: real where "c = 3602879701896397 / 36028797018963968"
  define y where "y = fl64 (P * c)"
  define z where "z = fl64 (- 10000 + y)"
  have "unat r < 256" "unat g < 256" "unat b < 256"
    using unsigned_less [of r, where ?'a = nat] unsigned_less [of g, where ?'a = nat]
      unsigned_less [of b, where ?'a = nat] by simp_all
  then have "unat r * 256 * 256 + unat g * 256 + unat b \<le> 16777215" by linarith
  then have "real (unat r * 256 * 256 + unat g * 256 + unat b) \<le> real 16777215"
    by (rule of_nat_mono)
  then have "P \<le> 16777215" unfolding P_def by simp
  moreover have "0 \<le> P" unfolding P_def by (rule of_nat_0_le_iff)
  ultimately have P: "0 \<le> P" "P \<le> 16777215" by simp_all
  have p21: "pow2 21 = 2097152" and p32: "pow2 (21 - int 53) / 2 = 1 / 2 ^ 33"
    and p3: "pow2 (21 - int 24) / 2 = 1 / 16"
    by (simp_all add: pow2_def)
  have y0: "0 \<le> P * c" "P * c \<le> 16777215 * c"
    using P by (simp_all add: c_def)
  then have y0': "\<bar>P * c\<bar> < pow2 21" unfolding p21 by (simp add: c_def)
  have ey: "\<bar>y - P * c\<bar> \<le> 1 / 2 ^ 33"
    using round_to_error_below [OF y0', of "- 1022" 53] unfolding y_def fl64_def p32 by simp
  have ec: "\<bar>P * c - P / 10\<bar> \<le> 1 / 2 ^ 33"
  proof -
    have "\<bar>P * c - P / 10\<bar> = P * (1 / 180143985094819840)"
      using P(1) by (simp add: c_def abs_if field_simps)
    also have "\<dots> \<le> 16777215 * (1 / 180143985094819840)"
      using P(2) by (intro mult_right_mono) simp_all
    also have "\<dots> \<le> 1 / 2 ^ 33" by simp
    finally show ?thesis .
  qed
  have cb: "16777215 * c \<le> 1677721 + 6 / 10" by (simp add: c_def)
  have e33: "1 / 2 ^ 33 \<le> (1 / 10 :: real)" by simp
  have yb: "- 1 \<le> y" "y \<le> 1677722"
    using abs_le_D1 [OF ey] abs_le_D2 [OF ey] y0 cb e33 by linarith+
  then have z0': "\<bar>- 10000 + y\<bar> < pow2 21" unfolding p21 by (simp add: abs_less_iff)
  have ez: "\<bar>z - (- 10000 + y)\<bar> \<le> 1 / 2 ^ 33"
    using round_to_error_below [OF z0', of "- 1022" 53] unfolding z_def fl64_def p32 by simp
  have z': "\<bar>z\<bar> < pow2 21"
    unfolding p21 abs_less_iff using abs_le_D1 [OF ez] abs_le_D2 [OF ez] yb e33 by linarith
  have ew: "\<bar>fl32 z - z\<bar> \<le> 1 / 16"
    using round_to_error_below [OF z', of "- 126" 24] unfolding fl32_def p3 by simp
  have d: "decodePixel r g b = fl32 z"
    by (simp add: decodePixel_def z_def y_def P_def c_def fl64_tenth)
  have "unat r * 65536 + unat g * 256 + unat b = unat r * 256 * 256 + unat g * 256 + unat b" by simp
  then have P': "real (unat r * 65536 + unat g * 256 + unat b) = P" unfolding P_def by (rule arg_cong)
  have "\<bar>fl32 z - (- 10000 + P / 10)\<bar> \<le> 1 / 16 + 3 / 2 ^ 33"
    unfolding abs_le_iff
    using abs_le_D1 [OF ew] abs_le_D2 [OF ew] abs_le_D1 [OF ez] abs_le_D2 [OF ez]
      abs_le_D1 [OF ey] abs_le_D2 [OF ey] abs_le_D1 [OF ec] abs_le_D2 [OF ec]
    by linarith
  also have "\<dots> \<le> 1 / 16 + 1 / 2 ^ 31" by simp
  finally show ?thesis unfolding d P' .
qed

text \<open>
  Claim C5. Each pixel is decoded to \<open>-10000 + (R * 65536 + G * 256 + B) * 0.1\<close>, evaluated
  in binary64 arithmetic and stored as a binary32 value, which is within
  \<open>1/16 + 2\<^sup>-\<^sup>3\<^sup>1\<close> of the real number \<open>-10000 + (R * 65536 + G * 256 + B) / 10\<close>; the
  samples of a decoded raster are the decoded pixels in row-major order; and the pixel
  \<open>R = 0, G = 39, B = 16\<close> decodes to exactly \<open>-9000\<close>.
\<close>

theorem decode_transform:
  "decodePixel r g b =
     fl32 (fl64 (- 10000 + fl64 (real (unat r * 65536 + unat g * 256 + unat b) * fl64 (1 / 10))))
   \<and> \<bar>decodePixel r g b - (- 10000 + real (unat r * 65536 + unat g * 256 + unat b) / 10)\<bar>
       \<le> 1 / 16 + 1 / 2 ^ 31
   \<and> data (decodeBitmap img) =
       map (\<lambda>i. decodePixel (imgData img (i * 4)) (imgData img (i * 4 + 1)) (imgData img (i * 4 + 2)))
         [0 ..< imgWidth img * imgHeight img]
   \<and> width (decodeBitmap img) = imgWidth img \<and> height (decodeBitmap img) = imgHeight img
   \<and> decodePixel 0 39 16 = - 9000"
proof -
  have "decodePixel 0 39 16 = - 9000"
    by (simp add: decodePixel_def fl32_def fl64_def round_to_def exponent_of_def ilog2.simps
        pow2_def round_half_even_def Let_def)
  moreover have "decodePixel r g b =
     fl32 (fl64 (- 10000 + fl64 (real (unat r * 65536 + unat g * 256 + unat b) * fl64 (1 / 10))))"
    unfolding decodePixel_def by (simp only: mult.assoc) simp
  ultimately show ?thesis
    using decode_accuracy [of r g b] by (simp add: decodeBitmap_def)
qed

section \<open>Different coordinates have different cache keys\<close>

lemma digit_cases: "d < 10 \<Longrightarrow> d \<in> {0, 1, 2, 3, 4, 5, 6, 7, 8, 9 :: nat}"
  by auto

lemma of_char_digit: "d < 10 \<Longrightarrow> of_char (digit d) = (48 + d :: nat)"
  by (drule digit_cases) (auto simp: digit_def)

lemma digit_not_sep: "d < 10 \<Longrightarrow> digit d \<noteq> CHR '','' \<and> digit d \<noteq> CHR ''-''"
  by (drule digit_cases) (auto simp: digit_def)

lemma digits_value_digits: "digits_value (digits n) = n"
proof (induction n rule: digits.induct)
  case (1 n)
  show ?case
  proof (cases "n < 10")
    case True
    then show ?thesis by (subst digits.simps) (simp add: digits_value_def of_char_digit)
  next
    case False
    with 1 have "digits_value (digits (n div 10)) = n div 10" by simp
    with False show ?thesis
      by (subst digits.simps) (simp add: digits_value_def of_char_digit)
  qed
qed

lemma digits_chars: "c \<in> set (digits n) \<Longrightarrow> c \<noteq> CHR '','' \<and> c \<noteq> CHR ''-''"
proof (induction n rule: digits.induct)
  case (1 n)
  show ?case
  proof (cases "n < 10")
    case True
    with 1(2) show ?thesis by (subst (asm) digits.simps) (simp add: digit_not_sep)
  next
    case False
    with 1 show ?thesis by (subst (asm) digits.simps) (auto simp: digit_not_sep)
  qed
qed

lemma digits_nonempty: "digits n \<noteq> []"
  by (subst digits.simps) simp

lemma digits_inj: "digits m = digits n \<Longrightarrow> m = n"
  using digits_value_digits by metis

lemma number_string_inj: "number_string i = number_string j \<Longrightarrow> i = j"
proof -
  assume e: "number_string i = number_string j"
  have hd: "hd (digits n) \<noteq> CHR ''-''" for n
    using digits_chars [of "hd (digits n)" n] digits_nonempty [of n] by simp
  show ?thesis
  proof (cases "i < 0")
    case True
    show ?thesis
    proof (cases "j < 0")
      case j: True
      with True e have "digits (nat (- i)) = digits (nat (- j))" by (simp add: number_string_def)
      from digits_inj [OF this] True j show ?thesis by simp
    next
      case False
      with True e have "CHR ''-'' # digits (nat (- i)) = digits (nat j)" by (simp add: number_string_def)
      with hd [of "nat j"] show ?thesis by (metis list.sel(1))
    qed
  next
    case False
    show ?thesis
    proof (cases "j < 0")
      case True
      with False e have "digits (nat i) = CHR ''-'' # digits (nat (- j))" by (simp add: number_string_def)
      with hd [of "nat i"] show ?thesis by (metis list.sel(1))
    next
      case j: False
      with False e have "digits (nat i) = digits (nat j)" by (simp add: number_string_def)
      from digits_inj [OF this] False j show ?thesis by simp
    qed
  qed
qed

lemma number_string_no_sep: "CHR '','' \<notin> set (number_string i)"
  using digits_chars by (auto simp: number_string_def)

lemma split_at_sep:
  "c \<notin> set a \<Longrightarrow> c \<notin> set a' \<Longrightarrow> a @ c # r = a' @ c # r' \<Longrightarrow> a = a' \<and> r = r'"
proof (induction a arbitrary: a')
  case Nil
  then show ?case by (cases a') auto
next
  case (Cons x a)
  then show ?case by (cases a') auto
qed

lemma getTileKey_inj:
  assumes "getTileKey x y zoom = getTileKey x' y' zoom'"
  shows "x = x' \<and> y = y' \<and> zoom = zoom'"
proof -
  from assms have "number_string x @ CHR '','' # (number_string y @ CHR '','' # number_string zoom)
      = number_string x' @ CHR '','' # (number_string y' @ CHR '','' # number_string zoom')"
    by (simp add: getTileKey_def)
  from split_at_sep [OF number_string_no_sep number_string_no_sep this]
  have a: "number_string x = number_string x'"
    and "number_string y @ CHR '','' # number_string zoom = number_string y' @ CHR '','' # number_string zoom'"
    by simp_all
  from split_at_sep [OF number_string_no_sep number_string_no_sep this(2)]
  have "number_string y = number_string y'" "number_string zoom = number_string zoom'" by simp_all
  with a show ?thesis by (simp add: number_string_inj)
qed

section \<open>What the admission loop leaves alone\<close>

lemma processQueue_cache:
  "tiles (processQueue s) = tiles s \<and> tileObjs (processQueue s) = tileObjs s
   \<and> nextTile (processQueue s) = nextTile s \<and> promises (processQueue s) = promises s
   \<and> nextPromise (processQueue s) = nextPromise s"
proof (induction s rule: processQueue.induct)
  case (1 s)
  show ?case
    using 1 by (subst (1 2 3 4 5) processQueue.simps) (auto split: prod.splits option.splits)
qed

section \<open>Eviction\<close>

lemma isUsed_iff: "isUsed t \<longleftrightarrow> users t \<noteq> []"
  by (simp add: isUsed_def)

text \<open>
  Claim C6. A tracker reports unused exactly when its owner set is empty; after
  \<open>update\<close> the cache holds exactly the entries whose tile was in use when \<open>update\<close> was
  called; so when the only owner of a cached tile releases it, the next \<open>update\<close>
  leaves \<open>getTile\<close> for its coordinate absent.
\<close>

theorem eviction_exact:
  "(\<not> isUsed t \<longleftrightarrow> users t = [])
   \<and> tiles (update s) key =
       (case tiles s key of
          None \<Rightarrow> None
        | Some tile \<Rightarrow> if isUsed (tracker (tileObjs s tile)) then Some tile else None)
   \<and> (getTile s x y zoom = Some tile \<and> set (users (tracker (tileObjs s tile))) \<subseteq> {ident}
        \<longrightarrow> getTile (update (tracker_release tile ident s)) x y zoom = None)"
proof -
  have a: "tiles (update s) key =
       (case tiles s key of
          None \<Rightarrow> None
        | Some tile \<Rightarrow> if isUsed (tracker (tileObjs s tile)) then Some tile else None)" for s key
    by (simp add: update_def processQueue_cache removeUnusedTiles_def split: option.splits)
  have b: "set xs \<subseteq> {ident} \<Longrightarrow> set_delete ident xs = []" for xs :: "owner list"
    by (induction xs) (auto simp: set_delete_def)
  show ?thesis
    using b by (auto simp: a isUsed_iff getTile_def tracker_release_def release_def)
qed

theorem eviction_exact_witness:
  "getTile (run id [GetOrLoadTile 0 0 0 7, Update, Finish 0 ok_response] init) 0 0 0 = Some 0
   \<and> set (users (tracker (tileObjs (run id [GetOrLoadTile 0 0 0 7, Update, Finish 0 ok_response] init) 0))) \<subseteq> {7}
   \<and> getTile (update (tracker_release 0 7 (run id [GetOrLoadTile 0 0 0 7, Update, Finish 0 ok_response] init))) 0 0 0 = None"
proof -
  have h: "getTile (run id [GetOrLoadTile 0 0 0 7, Update, Finish 0 ok_response] init) 0 0 0 = Some 0
   \<and> set (users (tracker (tileObjs (run id [GetOrLoadTile 0 0 0 7, Update, Finish 0 ok_response] init) 0))) \<subseteq> {7}"
    by (simp add: eval_defs)
  with eviction_exact [of _ "run id [GetOrLoadTile 0 0 0 7, Update, Finish 0 ok_response] init" _ 0 0 0 0 7]
  show ?thesis by blast
qed

section \<open>The pyramid levels stored by load\<close>

lemma addBitmap_wf: "tiles_wf s \<Longrightarrow> tiles_wf (addBitmap bm x y zoom l s)"
  by (auto simp: tiles_wf_def addBitmap_def addTile_def getTile_def Let_def less_Suc_eq split: option.splits)

lemma getBitmap_addBitmap_same: "getBitmap (addBitmap bm x y zoom l s) x y zoom l = Some bm"
  by (auto simp: getBitmap_def addBitmap_def addTile_def getTile_def getLevel_def setLevel_def Let_def
      split: option.splits)

lemma getBitmap_addBitmap_other:
  assumes "tiles_wf s" "l \<noteq> l'" "getBitmap s x y zoom l = Some v"
  shows "getBitmap (addBitmap bm x' y' zoom' l' s) x y zoom l = Some v"
  using assms
  by (auto simp: tiles_wf_def getBitmap_def addBitmap_def addTile_def getTile_def getLevel_def
      setLevel_def Let_def split: option.splits)

lemma fold_wf:
  "tiles_wf s \<Longrightarrow> tiles_wf (fold (\<lambda>i. addBitmap bm (f i) (g i) zoom (h i)) xs s)"
  by (induction xs arbitrary: s) (auto simp: addBitmap_wf)

lemma downscale_levels:
  assumes "tiles_wf s" "i < n"
  shows "getBitmap (fold (\<lambda>i. addBitmap bm (x div 2 ^ i) (y div 2 ^ i) zoom (Suc i)) [0 ..< n] s)
           (x div 2 ^ i) (y div 2 ^ i) zoom (Suc i) = Some bm"
  using assms(2)
proof (induction n)
  case 0
  then show ?case by simp
next
  case (Suc n)
  show ?case
  proof (cases "i = n")
    case True
    then show ?thesis by (simp add: getBitmap_addBitmap_same)
  next
    case False
    with Suc have "i < n" by simp
    with Suc.IH show ?thesis
      using assms(1) by (simp add: getBitmap_addBitmap_other fold_wf)
  qed
qed

lemma downscale_keeps:
  assumes "tiles_wf s" "getBitmap s x y zoom 0 = Some v"
  shows "getBitmap (fold (\<lambda>i. addBitmap bm (f i) (g i) zoom' (Suc i)) [0 ..< n] s) x y zoom 0 = Some v"
  using assms by (induction n) (simp_all add: getBitmap_addBitmap_other fold_wf)

text \<open>
  Claim C8. After a successful \<open>load\<close> with \<open>downscaleTimes\<close> passes, level \<open>i + 1\<close> of
  the tile at \<open>(x div 2 ^ i, y div 2 ^ i, zoom)\<close> is the downscaled payload for every
  \<open>i < downscaleTimes\<close> (so that tile exists), level 0 at \<open>(x, y, zoom)\<close> is the decoded
  payload, and with \<open>downscaleTimes = 1\<close> the whole effect is two stores on the tile at
  \<open>(x, y, zoom)\<close>: level 0, then level 1.
\<close>

theorem load_pyramid:
  assumes "status resp = 200" and "tiles_wf s"
  shows "(\<forall>i<downscaleTimes.
            getBitmap (load downscale x y zoom downscaleTimes resp s) (x div 2 ^ i) (y div 2 ^ i) zoom (i + 1)
              = Some (downscale (decodeBitmap (body resp))))
         \<and> getBitmap (load downscale x y zoom downscaleTimes resp s) x y zoom 0 = Some (decodeBitmap (body resp))
         \<and> load downscale x y zoom 1 resp s
             = addBitmap (downscale (decodeBitmap (body resp))) x y zoom 1
                 (addBitmap (decodeBitmap (body resp)) x y zoom 0 s)"
  using assms
  by (simp add: load_def Let_def downscale_levels downscale_keeps addBitmap_wf getBitmap_addBitmap_same)

lemma tiles_wf_init: "tiles_wf init" by (simp add: tiles_wf_def init_def)

theorem load_pyramid_witness:
  "status ok_response = 200 \<and> tiles_wf init \<and> (1::nat) < 2
   \<and> getBitmap (load id 5 3 2 2 ok_response init) 2 1 2 2 = Some (id (decodeBitmap (body ok_response)))
   \<and> getBitmap (load id 5 3 2 2 ok_response init) 5 3 2 1 = Some (id (decodeBitmap (body ok_response)))
   \<and> getBitmap (load id 5 3 2 2 ok_response init) 5 3 2 0 = Some (decodeBitmap (body ok_response))"
proof -
  have h: "status ok_response = 200" by (simp add: ok_response_def)
  note t = load_pyramid [OF h tiles_wf_init, of 2 id 5 3 2]
  from t have "1 < (2::nat) \<longrightarrow> getBitmap (load id 5 3 2 2 ok_response init) (5 div 2 ^ 1) (3 div 2 ^ 1) 2 (1 + 1)
      = Some (id (decodeBitmap (body ok_response)))"
    by blast
  moreover from t have "0 < (2::nat) \<longrightarrow> getBitmap (load id 5 3 2 2 ok_response init) (5 div 2 ^ 0) (3 div 2 ^ 0) 2 (0 + 1)
      = Some (id (decodeBitmap (body ok_response)))"
    by blast
  ultimately show ?thesis using t h tiles_wf_init by (simp add: numeral_2_eq_2)
qed

section \<open>The scheduler invariant\<close>

lemma find_SomeD: "List.find P xs = Some x \<Longrightarrow> P x \<and> x \<in> set xs"
  by (induction xs) (auto split: if_splits)

lemma find_request_None:
  "find_request objs q x y zoom = None \<Longrightarrow> r \<in> set (queue q @ queueInProgress q) \<Longrightarrow> \<not> matches objs x y zoom r"
  by (auto simp: find_request_def find_None_iff split: option.splits)

lemma find_request_Some:
  "find_request objs q x y zoom = Some r \<Longrightarrow> r \<in> set (queue q @ queueInProgress q) \<and> matches objs x y zoom r"
  by (auto simp: find_request_def split: option.splits dest: find_SomeD)

lemma fetched_queue_set:
  assumes "queue_inv s"
  shows "set (fetched s) \<union> set (queue (requestQueue s)) = {0 ..< nextRequest s}"
proof -
  from assms have e: "fetched s @ queue (requestQueue s) = [0 ..< nextRequest s]"
    by (simp add: queue_inv_def)
  show ?thesis using arg_cong [OF e, of set] by simp
qed

lemma live_bound:
  assumes "queue_inv s" and "r \<in> set (live s)"
  shows "r < nextRequest s"
proof -
  from assms(1) have "set (queueInProgress (requestQueue s)) \<subseteq> set (fetched s)"
    by (simp add: queue_inv_def)
  with fetched_queue_set [OF assms(1)] assms(2) show ?thesis
    by (auto simp: live_def)
qed

lemma queue_inv_sched: "sched s' = sched s \<Longrightarrow> queue_inv s' = queue_inv s"
  by (simp add: sched_def queue_inv_def live_def coord_def cong: map_cong)

lemma queue_inv_init: "queue_inv init"
  by (simp add: queue_inv_def init_def live_def)

lemma sched_addBitmap: "sched (addBitmap bm x y zoom l s) = sched s"
  by (simp add: sched_def addBitmap_def addTile_def Let_def split: option.splits)

lemma sched_fold_addBitmap:
  "sched (fold (\<lambda>i. addBitmap bm (f i) (g i) zoom (h i)) xs s) = sched s"
  by (induction xs arbitrary: s) (simp_all add: sched_addBitmap)

lemma sched_load: "sched (load ds x y zoom n resp s) = sched s"
  by (simp add: load_def Let_def sched_addBitmap sched_fold_addBitmap)

lemma sched_resolve_item: "resolve_item item s = (e, s') \<Longrightarrow> sched s' = sched s"
  by (auto simp: sched_def resolve_item_def tracker_use_def split: option.splits)

lemma sched_resolve_all: "resolve_all items s = (e, s') \<Longrightarrow> sched s' = sched s"
  by (induction items arbitrary: s) (auto split: prod.splits option.splits dest: sched_resolve_item)

lemma resolve_item_cache:
  "resolve_item item s = (e, s') \<Longrightarrow> tiles s' = tiles s \<and> nextTile s' = nextTile s \<and> nextPromise s' = nextPromise s"
  by (auto simp: resolve_item_def tracker_use_def split: option.splits)

lemma resolve_all_cache:
  "resolve_all items s = (e, s') \<Longrightarrow> tiles s' = tiles s \<and> nextTile s' = nextTile s \<and> nextPromise s' = nextPromise s"
  by (induction items arbitrary: s) (auto split: prod.splits option.splits dest: resolve_item_cache)

lemma distinct_insert_mid:
  "distinct (map f (q @ p)) \<Longrightarrow> f n \<notin> set (map f (q @ p)) \<Longrightarrow> distinct (map f (q @ [n] @ p))"
  by auto

lemma queue_inv_getOrLoadTile:
  assumes "queue_inv s"
  shows "queue_inv (snd (getOrLoadTile x y zoom ident s))"
proof (cases "getTile s x y zoom")
  case (Some tile)
  then have "sched (snd (getOrLoadTile x y zoom ident s)) = sched s"
    by (simp add: getOrLoadTile_def sched_def tracker_use_def Let_def)
  from queue_inv_sched [OF this] assms show ?thesis by simp
next
  case None
  show ?thesis
  proof (cases "find_request (requestObjs s) (requestQueue s) x y zoom")
    case (Some request)
    let ?s' = "snd (getOrLoadTile x y zoom ident s)"
    have "coord ?s' r = coord s r" for r
      using None Some by (simp add: getOrLoadTile_def Let_def coord_def)
    then have c: "coord ?s' = coord s" by (rule ext)
    have "activeRequests ?s' = activeRequests s" "requestQueue ?s' = requestQueue s"
      "fetched ?s' = fetched s" "nextRequest ?s' = nextRequest s"
      using None Some by (simp_all add: getOrLoadTile_def Let_def)
    with c assms show ?thesis
      by (auto simp: queue_inv_def live_def)
  next
    case N: None
    have fresh: "r \<in> set (live s) \<Longrightarrow> r \<noteq> nextRequest s" for r
      using live_bound [OF assms] by auto
    have nomatch: "r \<in> set (live s) \<Longrightarrow> coord s r \<noteq> (x, y, zoom)" for r
      using find_request_None [OF N, of r] by (auto simp: live_def matches_def coord_def)
    let ?s' = "snd (getOrLoadTile x y zoom ident s)"
    have c: "r \<in> set (live s) \<Longrightarrow> coord ?s' r = coord s r" for r
      using fresh None N by (auto simp: getOrLoadTile_def Let_def coord_def)
    have l: "live ?s' = queue (requestQueue s) @ [nextRequest s] @ queueInProgress (requestQueue s)"
      using None N by (simp add: getOrLoadTile_def Let_def live_def add_def)
    have cn: "coord ?s' (nextRequest s) = (x, y, zoom)"
      using None N by (simp add: getOrLoadTile_def Let_def coord_def)
    have m: "map (coord ?s') (live s) = map (coord s) (live s)"
      using c by (simp cong: map_cong)
    have d: "distinct (map (coord ?s') (live ?s'))"
    proof -
      have "distinct (map (coord ?s') (live s))"
        unfolding m using assms by (simp add: queue_inv_def)
      moreover have "coord ?s' (nextRequest s) \<notin> set (map (coord ?s') (live s))"
        unfolding m set_map cn using nomatch by (metis imageE)
      ultimately have "distinct (map (coord ?s')
          (queue (requestQueue s) @ [nextRequest s] @ queueInProgress (requestQueue s)))"
        unfolding live_def by (rule distinct_insert_mid)
      then show ?thesis by (simp only: l)
    qed
    have rest: "activeRequests ?s' = activeRequests s"
      "queueInProgress (requestQueue ?s') = queueInProgress (requestQueue s)"
      "queue (requestQueue ?s') = queue (requestQueue s) @ [nextRequest s]"
      "fetched ?s' = fetched s" "nextRequest ?s' = Suc (nextRequest s)"
      using None N by (simp_all add: getOrLoadTile_def Let_def add_def)
    from assms have "fetched s @ queue (requestQueue s) = [0 ..< nextRequest s]"
      by (simp add: queue_inv_def)
    then have "fetched s @ queue (requestQueue s) @ [nextRequest s] = [0 ..< Suc (nextRequest s)]"
      by simp
    with d assms show ?thesis
      by (auto simp: queue_inv_def rest)
  qed
qed

lemma queue_inv_admit:
  assumes "queue_inv s" and q: "queue (requestQueue s) = task # rest"
    and a: "length (activeRequests s) < maxConcurrentRequests"
  shows "queue_inv (s\<lparr>requestQueue := (requestQueue s)\<lparr>queue := rest,
                           queueInProgress := queueInProgress (requestQueue s) @ [task]\<rparr>,
                       activeRequests := set_add task (activeRequests s),
                       fetched := fetched s @ [task]\<rparr>)"
proof -
  from assms(1) have d: "distinct (map (coord s) (task # rest @ queueInProgress (requestQueue s)))"
    and e: "activeRequests s = queueInProgress (requestQueue s)"
    and f: "fetched s @ task # rest = [0 ..< nextRequest s]"
    and p: "set (queueInProgress (requestQueue s)) \<subseteq> set (fetched s)"
    by (simp_all add: queue_inv_def live_def q)
  from d have "task \<notin> set (queueInProgress (requestQueue s))"
    by auto
  then have sa: "set_add task (queueInProgress (requestQueue s)) = queueInProgress (requestQueue s) @ [task]"
    by (simp add: set_add_def)
  have c: "coord (s\<lparr>requestQueue := rq, activeRequests := ar, fetched := fe\<rparr>) = coord s" for rq ar fe
    by (rule ext) (simp add: coord_def)
  show ?thesis
    using d e f p a by (auto simp: queue_inv_def live_def sa c)
qed

lemma queue_inv_processQueue: "queue_inv s \<Longrightarrow> queue_inv (processQueue s)"
proof (induction s rule: processQueue.induct)
  case (1 s)
  show ?case
  proof (cases "size_queue (requestQueue s) > 0 \<and> length (activeRequests s) < maxConcurrentRequests")
    case False
    with 1(2) show ?thesis by (subst processQueue.simps) auto
  next
    case True
    then obtain task rest where q: "queue (requestQueue s) = task # rest"
      by (cases "queue (requestQueue s)") (auto simp: size_queue_def)
    let ?q = "(requestQueue s)\<lparr>queue := rest, queueInProgress := queueInProgress (requestQueue s) @ [task]\<rparr>"
    have g: "get (requestQueue s) = (Some task, ?q)"
      by (simp add: get_def q)
    let ?s = "s\<lparr>requestQueue := ?q, activeRequests := set_add task (activeRequests s),
                 fetched := fetched s @ [task]\<rparr>"
    have "queue_inv ?s"
      using queue_inv_admit [OF 1(2) q] True by simp
    with 1(1) [OF True g [symmetric] refl] have "queue_inv (processQueue ?s)" by simp
    then show ?thesis
      using True g by (subst processQueue.simps) simp
  qed
qed

lemma sched_removeUnusedTiles: "sched (removeUnusedTiles s) = sched s"
  by (simp add: sched_def removeUnusedTiles_def)

lemma queue_inv_update: "queue_inv s \<Longrightarrow> queue_inv (update s)"
  unfolding update_def
  using queue_inv_sched [OF sched_removeUnusedTiles] queue_inv_processQueue by blast

lemma distinct_map_remove1:
  "distinct (map f (q @ p)) \<Longrightarrow> distinct (map f (q @ remove1 t p))"
proof -
  assume d: "distinct (map f (q @ p))"
  have "set (q @ remove1 t p) \<subseteq> set (q @ p)"
    using set_remove1_subset [of t p] by auto
  moreover from d have "distinct (q @ p)" "inj_on f (set (q @ p))"
    by (simp_all only: distinct_map)
  ultimately show ?thesis
    by (simp only: distinct_map) (auto intro: inj_on_subset simp: distinct_remove1)
qed

lemma queue_inv_completion:
  assumes "queue_inv s"
  shows "queue_inv (snd (completion task s))"
proof -
  let ?s1 = "s\<lparr>activeRequests := set_delete task (activeRequests s),
               requestQueue := remove task (requestQueue s)\<rparr>"
  let ?p = "queueInProgress (requestQueue s)"
  from assms have dm: "distinct (map (coord s) (queue (requestQueue s) @ ?p))"
    and e: "activeRequests s = ?p"
    and l: "length ?p \<le> maxConcurrentRequests"
    and f: "fetched s @ queue (requestQueue s) = [0 ..< nextRequest s]"
    and p: "set ?p \<subseteq> set (fetched s)"
    by (auto simp: queue_inv_def live_def)
  from dm have "distinct ?p" by (simp add: distinct_map)
  then have r: "removeAll task ?p = remove1 task ?p"
    by (simp add: distinct_remove1_removeAll)
  have c: "coord (s\<lparr>activeRequests := ar, requestQueue := rq\<rparr>) = coord s" for ar rq
    by (rule ext) (simp add: coord_def)
  have l': "length (remove1 task ?p) \<le> maxConcurrentRequests"
    using l by (auto simp: length_remove1)
  have p': "set (remove1 task ?p) \<subseteq> set (fetched s)"
    using p set_remove1_subset [of task ?p] by blast
  have "queue_inv ?s1"
    using distinct_map_remove1 [OF dm, of task] f l' p'
    by (simp add: queue_inv_def live_def c remove_def set_delete_def r e)
  moreover have "sched (snd (completion task s)) = sched ?s1"
    using sched_resolve_all [of _ ?s1] by (cases "completion task s") (simp add: completion_def Let_def)
  ultimately show ?thesis using queue_inv_sched by blast
qed

lemma queue_inv_finish: "queue_inv s \<Longrightarrow> queue_inv (snd (finish ds task resp s))"
  unfolding finish_def
  using queue_inv_sched [OF sched_load] queue_inv_completion by blast

lemma sched_tracker: "sched (tracker_use tile ident s) = sched s" "sched (tracker_release tile ident s) = sched s"
  by (simp_all add: sched_def tracker_use_def tracker_release_def)

lemma queue_inv_step: "queue_inv s \<Longrightarrow> queue_inv (step ds e s)"
proof (cases e)
  case (GetOrLoadTile x y zoom ident)
  then show "queue_inv s \<Longrightarrow> ?thesis" by (simp add: queue_inv_getOrLoadTile)
next
  case Update
  then show "queue_inv s \<Longrightarrow> ?thesis" by (simp add: queue_inv_update)
next
  case (Finish task resp)
  then show "queue_inv s \<Longrightarrow> ?thesis" by (simp add: queue_inv_finish)
next
  case (TrackerUse tile ident)
  then show "queue_inv s \<Longrightarrow> ?thesis" using queue_inv_sched [OF sched_tracker(1)] by simp
next
  case (TrackerRelease tile ident)
  then show "queue_inv s \<Longrightarrow> ?thesis" using queue_inv_sched [OF sched_tracker(2)] by simp
qed

lemma run_snoc: "run ds (es @ [e]) s = step ds e (run ds es s)"
  by (simp add: run_def)

lemma queue_inv_run: "queue_inv s \<Longrightarrow> queue_inv (run ds es s)"
  by (induction es rule: rev_induct) (simp_all add: run_snoc queue_inv_step, simp add: run_def)

section \<open>The concurrency cap\<close>

text \<open>
  Claim C2. After any sequence of calls and pipeline completions, the number of active
  requests is at most \<open>maxConcurrentRequests\<close>, which is 2; the in-progress array of the
  queue holds the same requests.
\<close>

theorem in_flight_bounded:
  "length (activeRequests (run ds es init)) \<le> maxConcurrentRequests
   \<and> maxConcurrentRequests = 2
   \<and> queueInProgress (requestQueue (run ds es init)) = activeRequests (run ds es init)"
  using queue_inv_run [OF queue_inv_init, of ds es]
  by (auto simp: queue_inv_def maxConcurrentRequests_def)

section \<open>Coalescing\<close>

lemma distinct_map_filter_le1:
  "distinct (map f xs) \<Longrightarrow> length (filter (\<lambda>r. f r = c) xs) \<le> 1"
proof (induction xs)
  case Nil
  then show ?case by simp
next
  case (Cons a xs)
  show ?case
  proof (cases "f a = c")
    case True
    with Cons.prems have "\<forall>r \<in> set xs. f r \<noteq> c" by (metis distinct.simps(2) image_eqI list.simps(9) set_map)
    then have "filter (\<lambda>r. f r = c) xs = []" by (simp add: filter_empty_conv)
    with True show ?thesis by simp
  next
    case False
    with Cons show ?thesis by simp
  qed
qed

lemma matches_coord: "matches (requestObjs s) x y zoom = (\<lambda>r. coord s r = (x, y, zoom))"
  by (rule ext) (simp add: matches_def coord_def)

lemma queue_inv_one_request:
  "queue_inv s \<Longrightarrow> length (filter (matches (requestObjs s) x y zoom) (live s)) \<le> 1"
  unfolding matches_coord by (rule distinct_map_filter_le1) (simp add: queue_inv_def)

text \<open>
  Claim C4. In every state that a sequence of loader operations reaches, and after any
  further operation, at most one request for a given coordinate exists in the waiting
  queue and the in-progress array together.
\<close>

theorem one_request_per_coordinate:
  "length (filter (matches (requestObjs (run ds es init)) x y zoom) (live (run ds es init))) \<le> 1
   \<and> length (filter (matches (requestObjs (step ds e (run ds es init))) x y zoom)
         (live (step ds e (run ds es init)))) \<le> 1"
  using queue_inv_one_request [OF queue_inv_run [OF queue_inv_init], of ds es x y zoom]
    queue_inv_one_request [OF queue_inv_step [OF queue_inv_run [OF queue_inv_init]], of ds e ds es x y zoom]
  by simp

section \<open>Admission order\<close>

lemma processQueue_prefix:
  "\<exists>k. queue (requestQueue (processQueue s)) = drop k (queue (requestQueue s))
       \<and> queueInProgress (requestQueue (processQueue s))
           = queueInProgress (requestQueue s) @ take k (queue (requestQueue s))
       \<and> fetched (processQueue s) = fetched s @ take k (queue (requestQueue s))"
proof (induction s rule: processQueue.induct)
  case (1 s)
  show ?case
  proof (cases "size_queue (requestQueue s) > 0 \<and> length (activeRequests s) < maxConcurrentRequests")
    case False
    then have "processQueue s = s" by (subst processQueue.simps) auto
    then show ?thesis by (auto intro: exI [of _ 0])
  next
    case True
    then obtain task rest where q: "queue (requestQueue s) = task # rest"
      by (cases "queue (requestQueue s)") (auto simp: size_queue_def)
    let ?q = "(requestQueue s)\<lparr>queue := rest, queueInProgress := queueInProgress (requestQueue s) @ [task]\<rparr>"
    have g: "get (requestQueue s) = (Some task, ?q)"
      by (simp add: get_def q)
    let ?s = "s\<lparr>requestQueue := ?q, activeRequests := set_add task (activeRequests s),
                 fetched := fetched s @ [task]\<rparr>"
    have p: "processQueue s = processQueue ?s"
      using True g by (subst processQueue.simps) simp
    from 1 [OF True g [symmetric] refl] obtain k where
      "queue (requestQueue (processQueue ?s)) = drop k rest"
      "queueInProgress (requestQueue (processQueue ?s)) = queueInProgress (requestQueue s) @ [task] @ take k rest"
      "fetched (processQueue ?s) = fetched s @ [task] @ take k rest"
      by auto
    then show ?thesis
      unfolding p q by (intro exI [of _ "Suc k"]) simp
  qed
qed

text \<open>
  Claim C9. A new request is numbered with the next free number and appended to the
  tail of the waiting queue; an admission pass of \<open>update\<close> moves a prefix of the waiting
  queue, in order, to the in-progress array and issues the fetches in that order; hence
  in every run the fetches issued so far followed by the waiting queue are all requests
  in the order of their creation.
\<close>

theorem fifo_admission:
  "(getTile s x y zoom = None \<and> find_request (requestObjs s) (requestQueue s) x y zoom = None
      \<longrightarrow> queue (requestQueue (snd (getOrLoadTile x y zoom ident s)))
            = queue (requestQueue s) @ [nextRequest s]
          \<and> nextRequest (snd (getOrLoadTile x y zoom ident s)) = Suc (nextRequest s))
   \<and> (\<exists>k. queue (requestQueue (update s)) = drop k (queue (requestQueue s))
          \<and> queueInProgress (requestQueue (update s))
              = queueInProgress (requestQueue s) @ take k (queue (requestQueue s))
          \<and> fetched (update s) = fetched s @ take k (queue (requestQueue s)))
   \<and> fetched (run ds es init) @ queue (requestQueue (run ds es init))
       = [0 ..< nextRequest (run ds es init)]"
proof -
  have "fetched (run ds es init) @ queue (requestQueue (run ds es init))
       = [0 ..< nextRequest (run ds es init)]"
    using queue_inv_run [OF queue_inv_init, of ds es] by (simp add: queue_inv_def)
  moreover have "\<exists>k. queue (requestQueue (update s)) = drop k (queue (requestQueue s))
          \<and> queueInProgress (requestQueue (update s))
              = queueInProgress (requestQueue s) @ take k (queue (requestQueue s))
          \<and> fetched (update s) = fetched s @ take k (queue (requestQueue s))"
    using processQueue_prefix [of "removeUnusedTiles s"]
    by (simp add: update_def removeUnusedTiles_def)
  ultimately show ?thesis
    by (simp add: getOrLoadTile_def Let_def add_def)
qed

theorem fifo_admission_witness:
  "getTile (run id [GetOrLoadTile 0 0 0 7] init) 1 0 0 = None
   \<and> find_request (requestObjs (run id [GetOrLoadTile 0 0 0 7] init))
        (requestQueue (run id [GetOrLoadTile 0 0 0 7] init)) 1 0 0 = None
   \<and> queue (requestQueue (snd (getOrLoadTile 1 0 0 8 (run id [GetOrLoadTile 0 0 0 7] init)))) = [0, 1]
   \<and> fetched (run id [GetOrLoadTile 0 0 0 7, GetOrLoadTile 1 0 0 8, GetOrLoadTile 2 0 0 9, Update] init) = [0, 1]
   \<and> queue (requestQueue (run id [GetOrLoadTile 0 0 0 7, GetOrLoadTile 1 0 0 8, GetOrLoadTile 2 0 0 9, Update] init)) = [2]"
proof -
  have h: "getTile (run id [GetOrLoadTile 0 0 0 7] init) 1 0 0 = None
   \<and> find_request (requestObjs (run id [GetOrLoadTile 0 0 0 7] init))
        (requestQueue (run id [GetOrLoadTile 0 0 0 7] init)) 1 0 0 = None"
    by (simp add: eval_defs)
  have q: "queue (requestQueue (run id [GetOrLoadTile 0 0 0 7] init)) = [0]"
    "nextRequest (run id [GetOrLoadTile 0 0 0 7] init) = 1"
    by (simp_all add: eval_defs)
  have f: "fetched (run id [GetOrLoadTile 0 0 0 7, GetOrLoadTile 1 0 0 8, GetOrLoadTile 2 0 0 9, Update] init) = [0, 1]"
    by (simp add: eval_defs)
  have n: "nextRequest (run id [GetOrLoadTile 0 0 0 7, GetOrLoadTile 1 0 0 8, GetOrLoadTile 2 0 0 9, Update] init) = 3"
    by (simp add: eval_defs)
  have u: "[0 ..< 3] = [0, 1, 2::nat]" by (simp add: upt_rec)
  from fifo_admission [of "run id [GetOrLoadTile 0 0 0 7] init" 1 0 0 8 id
      "[GetOrLoadTile 0 0 0 7, GetOrLoadTile 1 0 0 8, GetOrLoadTile 2 0 0 9, Update]"]
  show ?thesis using h by (simp add: q f n u)
qed

section \<open>A failed fetch\<close>

lemma load_failed: "status resp \<noteq> 200 \<Longrightarrow> load ds x y zoom n resp s = s"
  by (simp add: load_def)

lemma failed_fetch_no_entry:
  "status resp \<noteq> 200 \<Longrightarrow> tiles (snd (finish ds task resp s)) = tiles s"
  using resolve_all_cache [of "waitingList (requestObjs s task)"
      "s\<lparr>activeRequests := set_delete task (activeRequests s), requestQueue := remove task (requestQueue s)\<rparr>"]
  by (cases "finish ds task resp s") (simp add: finish_def load_failed completion_def Let_def)

lemma failed_fetch_throws:
  assumes "status resp \<noteq> 200" and "waitingList (requestObjs s task) = item # rest"
    and "getTile s (item_x item) (item_y item) (item_zoom item) = None"
  shows "finish ds task resp s
         = (Some TypeError, s\<lparr>activeRequests := set_delete task (activeRequests s),
                                requestQueue := remove task (requestQueue s)\<rparr>)"
  using assms
  by (simp add: finish_def load_failed completion_def Let_def resolve_item_def getTile_def)

section \<open>The waiting-list invariant\<close>

lemma items_inv_cong:
  "sched s' = sched s \<Longrightarrow> nextPromise s' = nextPromise s \<Longrightarrow> items_inv s' = items_inv s"
  by (simp add: sched_def items_inv_def live_def coord_def)

lemma items_inv_init: "items_inv init"
  by (simp add: items_inv_def init_def live_def)

lemma items_inv_getOrLoadTile:
  assumes "queue_inv s" and "items_inv s"
  shows "items_inv (snd (getOrLoadTile x y zoom ident s))"
proof (cases "getTile s x y zoom")
  case (Some tile)
  with assms(2) show ?thesis
    by (auto simp: getOrLoadTile_def tracker_use_def Let_def items_inv_def live_def coord_def less_Suc_eq)
next
  case None
  show ?thesis
  proof (cases "find_request (requestObjs s) (requestQueue s) x y zoom")
    case (Some request)
    from find_request_Some [OF Some] have "matches (requestObjs s) x y zoom request" by simp
    then have "coord s request = (x, y, zoom)" by (simp add: matches_def coord_def)
    with None Some assms(2) show ?thesis
      by (auto simp: getOrLoadTile_def Let_def items_inv_def live_def coord_def less_Suc_eq)
  next
    case N: None
    have fresh: "r \<in> set (live s) \<Longrightarrow> r \<noteq> nextRequest s" for r
      using live_bound [OF assms(1)] by auto
    with None N assms(2) show ?thesis
      by (auto simp: getOrLoadTile_def Let_def items_inv_def live_def coord_def add_def less_Suc_eq)
  qed
qed

lemma processQueue_live:
  "set (live (processQueue s)) = set (live s) \<and> requestObjs (processQueue s) = requestObjs s
   \<and> nextRequest (processQueue s) = nextRequest s"
proof -
  from processQueue_prefix [of s] obtain k where
    "queue (requestQueue (processQueue s)) = drop k (queue (requestQueue s))"
    "queueInProgress (requestQueue (processQueue s))
       = queueInProgress (requestQueue s) @ take k (queue (requestQueue s))"
    by blast
  then have "set (live (processQueue s))
      = set (take k (queue (requestQueue s)) @ drop k (queue (requestQueue s))) \<union> set (queueInProgress (requestQueue s))"
    unfolding live_def by (simp only: set_append) blast
  then have a: "set (live (processQueue s)) = set (live s)"
    by (simp add: live_def)
  have b: "requestObjs (processQueue s) = requestObjs s \<and> nextRequest (processQueue s) = nextRequest s"
  proof (induction s rule: processQueue.induct)
    case (1 s)
    show ?case
      using 1 by (subst (1 2) processQueue.simps) (auto split: prod.splits option.splits)
  qed
  from a b show ?thesis by simp
qed

lemma items_inv_update: "items_inv s \<Longrightarrow> items_inv (update s)"
  by (simp add: items_inv_def update_def processQueue_live processQueue_cache coord_def)
     (simp add: removeUnusedTiles_def live_def)

lemma items_inv_completion:
  assumes "items_inv s"
  shows "items_inv (snd (completion task s))"
proof -
  let ?s1 = "s\<lparr>activeRequests := set_delete task (activeRequests s),
               requestQueue := remove task (requestQueue s)\<rparr>"
  have "set (live ?s1) \<subseteq> set (live s)"
    using set_remove1_subset [of task "queueInProgress (requestQueue s)"]
    by (auto simp: live_def remove_def)
  with assms have i: "items_inv ?s1"
    by (auto simp: items_inv_def coord_def)
  obtain e s' where c: "completion task s = (e, s')" by (cases "completion task s")
  then have "resolve_all (waitingList (requestObjs ?s1 task)) ?s1 = (e, s')"
    by (simp add: completion_def Let_def)
  from sched_resolve_all [OF this] resolve_all_cache [OF this]
  have "items_inv s' = items_inv ?s1" by (intro items_inv_cong) simp_all
  with i c show ?thesis by simp
qed

lemma cache_addBitmap: "nextPromise (addBitmap bm x y zoom l s) = nextPromise s"
  by (simp add: addBitmap_def addTile_def Let_def split: option.splits)

lemma nextPromise_load: "nextPromise (load ds x y zoom n resp s) = nextPromise s"
proof -
  have "nextPromise (fold (\<lambda>i. addBitmap bm (f i) (g i) zoom (h i)) xs s) = nextPromise s"
    for bm f g h and xs :: "nat list" and s
    by (induction xs arbitrary: s) (simp_all add: cache_addBitmap)
  then show ?thesis by (simp add: load_def Let_def cache_addBitmap)
qed

lemma items_inv_finish: "items_inv s \<Longrightarrow> items_inv (snd (finish ds task resp s))"
  unfolding finish_def
  using items_inv_cong [OF sched_load nextPromise_load] items_inv_completion by blast

lemma items_inv_step: "queue_inv s \<Longrightarrow> items_inv s \<Longrightarrow> items_inv (step ds e s)"
proof (cases e)
  case (GetOrLoadTile x y zoom ident)
  then show "queue_inv s \<Longrightarrow> items_inv s \<Longrightarrow> ?thesis" by (simp add: items_inv_getOrLoadTile)
next
  case Update
  then show "queue_inv s \<Longrightarrow> items_inv s \<Longrightarrow> ?thesis" by (simp add: items_inv_update)
next
  case (Finish task resp)
  then show "queue_inv s \<Longrightarrow> items_inv s \<Longrightarrow> ?thesis" by (simp add: items_inv_finish)
next
  case (TrackerUse tile ident)
  then show "queue_inv s \<Longrightarrow> items_inv s \<Longrightarrow> ?thesis"
    by (simp add: items_inv_def tracker_use_def live_def coord_def)
next
  case (TrackerRelease tile ident)
  then show "queue_inv s \<Longrightarrow> items_inv s \<Longrightarrow> ?thesis"
    by (simp add: items_inv_def tracker_release_def live_def coord_def)
qed

lemma inv_run: "queue_inv s \<Longrightarrow> items_inv s \<Longrightarrow> queue_inv (run ds es s) \<and> items_inv (run ds es s)"
proof (induction es rule: rev_induct)
  case Nil
  then show ?case by (simp add: run_def)
next
  case (snoc e es)
  then show ?case by (simp add: run_snoc queue_inv_step items_inv_step)
qed

section \<open>What a step does to the requests\<close>

lemma finish_fields:
  "requestObjs (snd (finish ds task resp s)) = requestObjs s"
  "nextRequest (snd (finish ds task resp s)) = nextRequest s"
  "fetched (snd (finish ds task resp s)) = fetched s"
  "queue (requestQueue (snd (finish ds task resp s))) = queue (requestQueue s)"
  "queueInProgress (requestQueue (snd (finish ds task resp s))) = remove1 task (queueInProgress (requestQueue s))"
  "activeRequests (snd (finish ds task resp s)) = set_delete task (activeRequests s)"
proof -
  let ?l = "load ds (req_x (requestObjs s task)) (req_y (requestObjs s task)) (req_zoom (requestObjs s task)) 1 resp s"
  let ?s1 = "?l\<lparr>activeRequests := set_delete task (activeRequests ?l),
               requestQueue := remove task (requestQueue ?l)\<rparr>"
  obtain e s' where c: "finish ds task resp s = (e, s')" by (cases "finish ds task resp s")
  then have "resolve_all (waitingList (requestObjs ?s1 task)) ?s1 = (e, s')"
    by (simp add: finish_def completion_def Let_def)
  from sched_resolve_all [OF this] have "sched s' = sched ?s1" .
  moreover have "sched ?l = sched s" by (rule sched_load)
  ultimately have "sched s' = (set_delete task (activeRequests s), remove task (requestQueue s),
      requestObjs s, nextRequest s, fetched s)"
    by (simp add: sched_def)
  then show
    "requestObjs (snd (finish ds task resp s)) = requestObjs s"
    "nextRequest (snd (finish ds task resp s)) = nextRequest s"
    "fetched (snd (finish ds task resp s)) = fetched s"
    "queue (requestQueue (snd (finish ds task resp s))) = queue (requestQueue s)"
    "queueInProgress (requestQueue (snd (finish ds task resp s))) = remove1 task (queueInProgress (requestQueue s))"
    "activeRequests (snd (finish ds task resp s)) = set_delete task (activeRequests s)"
    by (simp_all add: c sched_def remove_def)
qed

lemma update_fields:
  "requestObjs (update s) = requestObjs s"
  "nextRequest (update s) = nextRequest s"
  "set (live (update s)) = set (live s)"
  using processQueue_live [of "removeUnusedTiles s"]
  by (simp_all add: update_def) (simp_all add: removeUnusedTiles_def live_def)






section \<open>What a run does to the requests\<close>









section \<open>A successful fetch\<close>




section \<open>Coalesced callers\<close>





lemma inv_reachable: "queue_inv (run ds es init) \<and> items_inv (run ds es init)"
  using inv_run [OF queue_inv_init items_inv_init] .



section \<open>What a call on a miss does, and who resumes the caller\<close>

lemma resolve_all_promises:
  "resolve_all items s = (e, s') \<Longrightarrow> \<forall>item \<in> set items. item_promise item \<noteq> p \<Longrightarrow> promises s' p = promises s p"
proof (induction items arbitrary: s)
  case Nil
  then show ?case by simp
next
  case (Cons item items)
  obtain e1 s1 where r: "resolve_item item s = (e1, s1)" by (cases "resolve_item item s")
  with Cons.prems(2) have p1: "promises s1 p = promises s p"
    by (auto simp: resolve_item_def tracker_use_def split: option.splits)
  show ?case
  proof (cases e1)
    case None
    with r Cons.prems(1) have "resolve_all items s1 = (e, s')" by simp
    from Cons.IH [OF this] Cons.prems(2) p1 show ?thesis by simp
  next
    case (Some err)
    with r Cons.prems(1) have "s' = s1" by simp
    with p1 show ?thesis by simp
  qed
qed

lemma promises_addBitmap: "promises (addBitmap bm x y zoom l s) = promises s"
  by (simp add: addBitmap_def addTile_def Let_def split: option.splits)

lemma promises_load: "promises (load ds x y zoom n resp s) = promises s"
proof -
  have "promises (fold (\<lambda>i. addBitmap bm (f i) (g i) zoom (h i)) xs s) = promises s"
    for bm f g h and xs :: "nat list" and s
    by (induction xs arbitrary: s) (simp_all add: promises_addBitmap)
  then show ?thesis by (simp add: load_def Let_def promises_addBitmap)
qed

lemma load_fields:
  "requestObjs (load ds x y zoom n resp s) = requestObjs s"
  "activeRequests (load ds x y zoom n resp s) = activeRequests s"
  "requestQueue (load ds x y zoom n resp s) = requestQueue s"
  using sched_load [of ds x y zoom n resp s] by (simp_all add: sched_def)

lemma finish_eq:
  "finish ds task resp s
   = resolve_all (waitingList (requestObjs s task))
       ((load ds (req_x (requestObjs s task)) (req_y (requestObjs s task)) (req_zoom (requestObjs s task)) 1 resp s)
          \<lparr>activeRequests := set_delete task (activeRequests s), requestQueue := remove task (requestQueue s)\<rparr>)"
  by (simp add: finish_def completion_def Let_def load_fields)

lemma finish_promises:
  assumes "\<forall>item \<in> set (waitingList (requestObjs s task)). item_promise item \<noteq> p"
  shows "promises (snd (finish ds task resp s)) p = promises s p"
    and "nextPromise (snd (finish ds task resp s)) = nextPromise s"
proof -
  obtain e s' where c: "finish ds task resp s = (e, s')" by (cases "finish ds task resp s")
  note r = c [unfolded finish_eq]
  from resolve_all_promises [OF r assms] show "promises (snd (finish ds task resp s)) p = promises s p"
    by (simp add: c promises_load)
  from resolve_all_cache [OF r] show "nextPromise (snd (finish ds task resp s)) = nextPromise s"
    by (simp add: c nextPromise_load)
qed

lemma unresolved_step:
  assumes inv: "queue_inv s" and u: "unresolved p s" and e: "e \<noteq> Update"
  shows "unresolved p (step ds e s)"
proof (cases e)
  case (GetOrLoadTile x y zoom ident)
  have fresh: "r \<in> set (queueInProgress (requestQueue s)) \<Longrightarrow> r \<noteq> nextRequest s" for r
    using live_bound [OF inv, of r] by (auto simp: live_def)
  from u fresh show ?thesis
    unfolding GetOrLoadTile
    by (auto simp: unresolved_def getOrLoadTile_def Let_def tracker_use_def add_def split: option.splits)
next
  case Update
  with e show ?thesis by simp
next
  case (Finish task resp)
  show ?thesis
  proof (cases "task \<in> set (activeRequests s)")
    case False
    with Finish u show ?thesis by simp
  next
    case True
    with inv have "task \<in> set (queueInProgress (requestQueue s))" by (auto simp: queue_inv_def)
    with u have "\<forall>item \<in> set (waitingList (requestObjs s task)). item_promise item \<noteq> p"
      by (simp add: unresolved_def)
    from finish_promises [OF this, of ds resp]
    have p: "promises (snd (finish ds task resp s)) p = promises s p"
      and np: "nextPromise (snd (finish ds task resp s)) = nextPromise s" .
    from u p np True Finish show ?thesis
      using set_remove1_subset [of task "queueInProgress (requestQueue s)"]
      by (auto simp: unresolved_def finish_fields)
  qed
next
  case (TrackerUse tile ident)
  with u show ?thesis by (simp add: unresolved_def tracker_use_def)
next
  case (TrackerRelease tile ident)
  with u show ?thesis by (simp add: unresolved_def tracker_release_def)
qed

lemma unresolved_run:
  "queue_inv s \<Longrightarrow> unresolved p s \<Longrightarrow> Update \<notin> set es \<Longrightarrow> unresolved p (run ds es s)"
proof (induction es rule: rev_induct)
  case Nil
  then show ?case by (simp add: run_def)
next
  case (snoc e es)
  then have "unresolved p (run ds es s)" "e \<noteq> Update" by auto
  with queue_inv_run [OF snoc.prems(1), of ds es] show ?case
    by (simp add: run_snoc unresolved_step)
qed

lemma fetch_only_by_update: "e \<noteq> Update \<Longrightarrow> fetched (step ds e s) = fetched s"
  by (cases e)
     (auto simp: getOrLoadTile_def Let_def tracker_use_def tracker_release_def finish_fields split: option.splits)

lemma miss_unresolved:
  assumes inv: "queue_inv s" "items_inv s" and miss: "getTile s x y zoom = None"
    and nf: "List.find (matches (requestObjs s) x y zoom) (queueInProgress (requestQueue s)) = None"
    and call: "getOrLoadTile x y zoom ident s = (p, s')"
  shows "unresolved p s'"
proof -
  have old: "item_promise item < nextPromise s"
    if "r \<in> set (queueInProgress (requestQueue s))" "item \<in> set (waitingList (requestObjs s r))" for r item
    using inv(2) that by (auto simp: items_inv_def live_def)
  have "\<exists>r0. r0 \<notin> set (queueInProgress (requestQueue s))
           \<and> (\<forall>r. r \<noteq> r0 \<longrightarrow> waitingList (requestObjs s' r) = waitingList (requestObjs s r))"
  proof (cases "find_request (requestObjs s) (requestQueue s) x y zoom")
    case (Some r0)
    with nf have "r0 \<in> set (queue (requestQueue s))"
      by (auto simp: find_request_def split: option.splits dest: find_SomeD)
    moreover have "distinct (queue (requestQueue s) @ queueInProgress (requestQueue s))"
    proof -
      from inv(1) have "distinct (map (coord s) (live s))" by (simp add: queue_inv_def)
      then have "distinct (live s)" by (simp add: distinct_map)
      then show ?thesis by (simp only: live_def)
    qed
    ultimately have "r0 \<notin> set (queueInProgress (requestQueue s))" by auto
    moreover from miss Some call
    have "\<forall>r. r \<noteq> r0 \<longrightarrow> waitingList (requestObjs s' r) = waitingList (requestObjs s r)"
      by (auto simp: getOrLoadTile_def Let_def)
    ultimately show ?thesis by blast
  next
    case None
    have "nextRequest s \<notin> set (queueInProgress (requestQueue s))"
      using live_bound [OF inv(1), of "nextRequest s"] by (auto simp: live_def)
    moreover from miss None call
    have "\<forall>r. r \<noteq> nextRequest s \<longrightarrow> waitingList (requestObjs s' r) = waitingList (requestObjs s r)"
      by (auto simp: getOrLoadTile_def Let_def)
    ultimately show ?thesis by blast
  qed
  then obtain r0 where r0: "r0 \<notin> set (queueInProgress (requestQueue s))"
    and w: "\<And>r. r \<noteq> r0 \<Longrightarrow> waitingList (requestObjs s' r) = waitingList (requestObjs s r)"
    by blast
  from miss call have f: "p = nextPromise s" "nextPromise s' = Suc (nextPromise s)" "promises s' p = Pending"
    "queueInProgress (requestQueue s') = queueInProgress (requestQueue s)"
    by (auto simp: getOrLoadTile_def Let_def add_def split: option.splits)
  have "item_promise item \<noteq> p"
    if "r \<in> set (queueInProgress (requestQueue s'))" "item \<in> set (waitingList (requestObjs s' r))" for r item
  proof -
    from that(1) r0 have "r \<noteq> r0" "r \<in> set (queueInProgress (requestQueue s))" by (auto simp: f)
    with that(2) w old [of r item] show ?thesis by (simp add: f)
  qed
  with f show ?thesis by (simp add: unresolved_def)
qed

text \<open>
  Claim C10, as amended. A call of \<open>getOrLoadTile\<close> on a miss leaves the cache, the tile
  objects, the fetch log and the active requests as they were: it returns a pending
  promise and either appends its waiting-list item to the request found for the
  coordinate or appends a new request, holding that one item, to the waiting queue. Only
  \<open>update\<close> issues fetches. If no request for the coordinate is in progress at the call,
  the caller's promise stays pending as long as \<open>update\<close> is not called.
\<close>

theorem miss_is_passive:
  assumes miss: "getTile (run ds es0 init) x y zoom = None"
    and call: "getOrLoadTile x y zoom ident (run ds es0 init) = (p, s')"
  shows "tiles s' = tiles (run ds es0 init) \<and> tileObjs s' = tileObjs (run ds es0 init)
     \<and> nextTile s' = nextTile (run ds es0 init)
     \<and> fetched s' = fetched (run ds es0 init) \<and> activeRequests s' = activeRequests (run ds es0 init)
     \<and> queueInProgress (requestQueue s') = queueInProgress (requestQueue (run ds es0 init))
     \<and> (case find_request (requestObjs (run ds es0 init)) (requestQueue (run ds es0 init)) x y zoom of
          Some r \<Rightarrow>
            requestQueue s' = requestQueue (run ds es0 init) \<and> nextRequest s' = nextRequest (run ds es0 init)
            \<and> requestObjs s' = (requestObjs (run ds es0 init))
                 (r := (requestObjs (run ds es0 init) r)
                    \<lparr>waitingList := waitingList (requestObjs (run ds es0 init) r)
                       @ [\<lparr>item_x = x, item_y = y, item_zoom = zoom, item_owner = ident, item_promise = p\<rparr>]\<rparr>)
        | None \<Rightarrow>
            queue (requestQueue s') = queue (requestQueue (run ds es0 init)) @ [nextRequest (run ds es0 init)]
            \<and> nextRequest s' = Suc (nextRequest (run ds es0 init))
            \<and> requestObjs s' = (requestObjs (run ds es0 init))
                 (nextRequest (run ds es0 init) :=
                    \<lparr>req_x = x, req_y = y, req_zoom = zoom,
                     waitingList = [\<lparr>item_x = x, item_y = y, item_zoom = zoom, item_owner = ident,
                                     item_promise = p\<rparr>]\<rparr>))
     \<and> promises s' p = Pending
     \<and> (\<forall>e s''. e \<noteq> Update \<longrightarrow> fetched (step ds e s'') = fetched s'')
     \<and> (\<forall>es. List.find (matches (requestObjs (run ds es0 init)) x y zoom)
                 (queueInProgress (requestQueue (run ds es0 init))) = None
              \<and> Update \<notin> set es
            \<longrightarrow> promises (run ds es s') p = Pending)"
proof -
  let ?s = "run ds es0 init"
  have inv: "queue_inv ?s" "items_inv ?s" using inv_reachable by simp_all
  have s': "s' = snd (getOrLoadTile x y zoom ident ?s)" using call by simp
  have inv': "queue_inv s'" unfolding s' using inv by (simp add: queue_inv_getOrLoadTile)
  have frame: "tiles s' = tiles ?s \<and> tileObjs s' = tileObjs ?s \<and> nextTile s' = nextTile ?s
     \<and> fetched s' = fetched ?s \<and> activeRequests s' = activeRequests ?s
     \<and> queueInProgress (requestQueue s') = queueInProgress (requestQueue ?s)
     \<and> promises s' p = Pending"
    using miss call by (auto simp: getOrLoadTile_def Let_def add_def split: option.splits)
  have shape: "(case find_request (requestObjs ?s) (requestQueue ?s) x y zoom of
          Some r \<Rightarrow>
            requestQueue s' = requestQueue ?s \<and> nextRequest s' = nextRequest ?s
            \<and> requestObjs s' = (requestObjs ?s)
                 (r := (requestObjs ?s r)
                    \<lparr>waitingList := waitingList (requestObjs ?s r)
                       @ [\<lparr>item_x = x, item_y = y, item_zoom = zoom, item_owner = ident, item_promise = p\<rparr>]\<rparr>)
        | None \<Rightarrow>
            queue (requestQueue s') = queue (requestQueue ?s) @ [nextRequest ?s]
            \<and> nextRequest s' = Suc (nextRequest ?s)
            \<and> requestObjs s' = (requestObjs ?s)
                 (nextRequest ?s :=
                    \<lparr>req_x = x, req_y = y, req_zoom = zoom,
                     waitingList = [\<lparr>item_x = x, item_y = y, item_zoom = zoom, item_owner = ident,
                                     item_promise = p\<rparr>]\<rparr>))"
    using miss call by (auto simp: getOrLoadTile_def Let_def add_def split: option.splits)
  have pending: "promises (run ds es s') p = Pending"
    if "List.find (matches (requestObjs ?s) x y zoom) (queueInProgress (requestQueue ?s)) = None"
      and "Update \<notin> set es" for es
    using unresolved_run [OF inv' miss_unresolved [OF inv miss that(1) call] that(2), of ds]
    by (simp add: unresolved_def)
  from frame shape pending fetch_only_by_update show ?thesis by blast
qed

theorem miss_is_passive_witness:
  "getTile (run id [] init) 0 0 0 = None
   \<and> fst (getOrLoadTile 0 0 0 7 (run id [] init)) = 0
   \<and> List.find (matches (requestObjs (run id [] init)) 0 0 0) (queueInProgress (requestQueue (run id [] init))) = None
   \<and> Update \<notin> set [GetOrLoadTile 1 0 0 8, GetOrLoadTile 0 0 0 9]
   \<and> promises (run id [GetOrLoadTile 1 0 0 8, GetOrLoadTile 0 0 0 9]
         (snd (getOrLoadTile 0 0 0 7 (run id [] init)))) 0 = Pending
   \<and> TrackerUse 0 3 \<noteq> Update
   \<and> fetched (step id (TrackerUse 0 3) init) = fetched init
   \<and> queue (requestQueue (snd (getOrLoadTile 0 0 0 7 (run id [] init)))) = [0]"
proof -
  let ?s' = "snd (getOrLoadTile 0 0 0 7 (run id [] init))"
  have h: "getTile (run id [] init) 0 0 0 = None" by (simp add: eval_defs)
  have p: "fst (getOrLoadTile 0 0 0 7 (run id [] init)) = 0" by (simp add: eval_defs)
  then have c: "getOrLoadTile 0 0 0 7 (run id [] init) = (0, ?s')" by (simp add: prod_eq_iff)
  have n: "List.find (matches (requestObjs (run id [] init)) 0 0 0)
             (queueInProgress (requestQueue (run id [] init))) = None"
    by (simp add: eval_defs)
  have u: "Update \<notin> set [GetOrLoadTile 1 0 0 8, GetOrLoadTile 0 0 0 9]" "TrackerUse 0 3 \<noteq> Update"
    by simp_all
  have q: "queue (requestQueue (run id [] init)) = []" "nextRequest (run id [] init) = 0"
    "find_request (requestObjs (run id [] init)) (requestQueue (run id [] init)) 0 0 0 = None"
    by (simp_all add: eval_defs)
  note t = miss_is_passive [OF h c]
  from t n u(1) have "promises (run id [GetOrLoadTile 1 0 0 8, GetOrLoadTile 0 0 0 9] ?s') 0 = Pending"
    by blast
  moreover from t u(2) have "fetched (step id (TrackerUse 0 3) init) = fetched init"
    by blast
  moreover from t have "queue (requestQueue ?s') = [0]"
    by (simp add: q)
  ultimately show ?thesis using h p n u by blast
qed

text \<open>
  Claim C10 as stated fails in its last clause. The request for \<open>(0, 0, 0)\<close> is already
  active when a second caller asks for that coordinate: the call is a miss, the caller
  is coalesced onto the active request, and the completion of that request resumes the
  caller although \<open>update\<close> is never called after the call.
\<close>

theorem resumed_without_update_counterexample:
  "getTile (run id [GetOrLoadTile 0 0 0 7, Update] init) 0 0 0 = None
   \<and> fst (getOrLoadTile 0 0 0 8 (run id [GetOrLoadTile 0 0 0 7, Update] init)) = 1
   \<and> promises (snd (getOrLoadTile 0 0 0 8 (run id [GetOrLoadTile 0 0 0 7, Update] init))) 1 = Pending
   \<and> Update \<notin> set [Finish 0 ok_response]
   \<and> promises (run id [Finish 0 ok_response]
         (snd (getOrLoadTile 0 0 0 8 (run id [GetOrLoadTile 0 0 0 7, Update] init)))) 1 = Resolved 0"
  by (simp add: eval_defs)

section \<open>Reachable states are well-formed\<close>

lemma tiles_wf_load: "tiles_wf s \<Longrightarrow> tiles_wf (load ds x y zoom n resp s)"
  by (simp add: load_def Let_def addBitmap_wf fold_wf)

lemma tiles_wf_step: "tiles_wf s \<Longrightarrow> tiles_wf (step ds e s)"
proof (cases e)
  case (GetOrLoadTile x y zoom ident)
  then show "tiles_wf s \<Longrightarrow> ?thesis"
    by (auto simp: tiles_wf_def getOrLoadTile_def Let_def tracker_use_def split: option.splits)
next
  case Update
  then show "tiles_wf s \<Longrightarrow> ?thesis"
    by (auto simp: tiles_wf_def update_def processQueue_cache removeUnusedTiles_def split: option.splits if_splits)
next
  case (Finish task resp)
  obtain e' s' where c: "finish ds task resp s = (e', s')" by (cases "finish ds task resp s")
  from resolve_all_cache [OF c [unfolded finish_eq]]
  have "tiles s' = tiles (load ds (req_x (requestObjs s task)) (req_y (requestObjs s task)) (req_zoom (requestObjs s task)) 1 resp s)"
    "nextTile s' = nextTile (load ds (req_x (requestObjs s task)) (req_y (requestObjs s task)) (req_zoom (requestObjs s task)) 1 resp s)"
    by simp_all
  then have "tiles_wf s'" if "tiles_wf s"
    using tiles_wf_load [OF that, of ds "req_x (requestObjs s task)" "req_y (requestObjs s task)" "req_zoom (requestObjs s task)" 1 resp]
    by (simp add: tiles_wf_def)
  with Finish c show "tiles_wf s \<Longrightarrow> ?thesis" by simp
next
  case (TrackerUse tile ident)
  then show "tiles_wf s \<Longrightarrow> ?thesis" by (simp add: tiles_wf_def tracker_use_def)
next
  case (TrackerRelease tile ident)
  then show "tiles_wf s \<Longrightarrow> ?thesis" by (simp add: tiles_wf_def tracker_release_def)
qed

lemma tiles_wf_run: "tiles_wf s \<Longrightarrow> tiles_wf (run ds es s)"
  by (induction es rule: rev_induct) (simp_all add: run_snoc tiles_wf_step, simp add: run_def)

lemma tiles_wf_reachable: "tiles_wf (run ds es init)"
  using tiles_wf_run [OF tiles_wf_init] .

section \<open>A request exists only for an uncached coordinate\<close>

lemma pending_inv_init: "pending_inv init"
  by (simp add: pending_inv_def init_def live_def)

lemma pending_inv_getOrLoadTile:
  assumes "queue_inv s" and "pending_inv s"
  shows "pending_inv (snd (getOrLoadTile x y zoom ident s))"
proof (cases "getTile s x y zoom")
  case (Some tile)
  with assms(2) show ?thesis
    by (auto simp: getOrLoadTile_def tracker_use_def Let_def pending_inv_def live_def getTile_def)
next
  case None
  show ?thesis
  proof (cases "find_request (requestObjs s) (requestQueue s) x y zoom")
    case (Some request)
    with None assms(2) show ?thesis
      by (auto simp: getOrLoadTile_def Let_def pending_inv_def live_def getTile_def)
  next
    case N: None
    have fresh: "r \<in> set (live s) \<Longrightarrow> r \<noteq> nextRequest s" for r
      using live_bound [OF assms(1)] by auto
    with None N assms(2) show ?thesis
      by (auto simp: getOrLoadTile_def Let_def pending_inv_def live_def getTile_def add_def)
  qed
qed

lemma pending_inv_update: "pending_inv s \<Longrightarrow> pending_inv (update s)"
proof -
  assume p: "pending_inv s"
  have t: "tiles s k = None \<Longrightarrow> tiles (update s) k = None" for k
    by (simp add: update_def processQueue_cache removeUnusedTiles_def)
  show ?thesis
    unfolding pending_inv_def update_fields
    using p by (auto simp: pending_inv_def getTile_def t)
qed

lemma tiles_addBitmap_other:
  "k \<noteq> getTileKey x y zoom \<Longrightarrow> tiles (addBitmap bm x y zoom l s) k = tiles s k"
  by (simp add: addBitmap_def addTile_def Let_def split: option.splits)

lemma tiles_load_other:
  "k \<noteq> getTileKey x y zoom \<Longrightarrow> tiles (load ds x y zoom 1 resp s) k = tiles s k"
  by (simp add: load_def Let_def tiles_addBitmap_other)

lemma pending_inv_finish:
  assumes inv: "queue_inv s" and p: "pending_inv s" and a: "task \<in> set (activeRequests s)"
  shows "pending_inv (snd (finish ds task resp s))"
proof -
  let ?x = "req_x (requestObjs s task)" and ?y = "req_y (requestObjs s task)" and ?z = "req_zoom (requestObjs s task)"
  obtain e s' where c: "finish ds task resp s = (e, s')" by (cases "finish ds task resp s")
  from resolve_all_cache [OF c [unfolded finish_eq]]
  have t: "tiles s' = tiles (load ds ?x ?y ?z 1 resp s)" by simp
  from inv have d: "distinct (map (coord s) (queue (requestQueue s) @ queueInProgress (requestQueue s)))"
    by (simp add: queue_inv_def live_def)
  then have dl: "distinct (queue (requestQueue s) @ queueInProgress (requestQueue s))"
    and inj: "inj_on (coord s) (set (queue (requestQueue s) @ queueInProgress (requestQueue s)))"
    by (simp_all only: distinct_map)
  from a inv have tl: "task \<in> set (queueInProgress (requestQueue s))" by (auto simp: queue_inv_def)
  have "waitingList (requestObjs s' r) \<noteq> []
        \<and> getTile s' (req_x (requestObjs s' r)) (req_y (requestObjs s' r)) (req_zoom (requestObjs s' r)) = None"
    if r: "r \<in> set (live s')" for r
  proof -
    from r have r': "r \<in> set (queue (requestQueue s) @ remove1 task (queueInProgress (requestQueue s)))"
      using finish_fields(4,5) [of ds task resp s] by (simp add: live_def c)
    with dl tl have ne: "r \<noteq> task" by auto
    from r' have rl: "r \<in> set (live s)"
      using set_remove1_subset [of task "queueInProgress (requestQueue s)"] by (auto simp: live_def)
    with tl ne inj have "coord s r \<noteq> coord s task"
      by (auto simp: live_def dest: inj_onD)
    then have k: "getTileKey (req_x (requestObjs s r)) (req_y (requestObjs s r)) (req_zoom (requestObjs s r))
          \<noteq> getTileKey ?x ?y ?z"
      using getTileKey_inj by (auto simp: coord_def)
    from p rl have "waitingList (requestObjs s r) \<noteq> []"
      "tiles s (getTileKey (req_x (requestObjs s r)) (req_y (requestObjs s r)) (req_zoom (requestObjs s r))) = None"
      by (auto simp: pending_inv_def getTile_def)
    with tiles_load_other [OF k, of ds resp s] show ?thesis
      using finish_fields(1) [of ds task resp s] by (simp add: c getTile_def t)
  qed
  then show ?thesis by (simp add: pending_inv_def c)
qed

lemma pending_inv_step: "queue_inv s \<Longrightarrow> pending_inv s \<Longrightarrow> pending_inv (step ds e s)"
proof (cases e)
  case (GetOrLoadTile x y zoom ident)
  then show "queue_inv s \<Longrightarrow> pending_inv s \<Longrightarrow> ?thesis" by (simp add: pending_inv_getOrLoadTile)
next
  case Update
  then show "queue_inv s \<Longrightarrow> pending_inv s \<Longrightarrow> ?thesis" by (simp add: pending_inv_update)
next
  case (Finish task resp)
  then show "queue_inv s \<Longrightarrow> pending_inv s \<Longrightarrow> ?thesis" by (simp add: pending_inv_finish)
next
  case (TrackerUse tile ident)
  then show "queue_inv s \<Longrightarrow> pending_inv s \<Longrightarrow> ?thesis"
    by (simp add: pending_inv_def tracker_use_def live_def getTile_def)
next
  case (TrackerRelease tile ident)
  then show "queue_inv s \<Longrightarrow> pending_inv s \<Longrightarrow> ?thesis"
    by (simp add: pending_inv_def tracker_release_def live_def getTile_def)
qed

lemma pending_inv_reachable: "pending_inv (run ds es init)"
proof (induction es rule: rev_induct)
  case Nil
  show ?case by (simp add: run_def pending_inv_init)
next
  case (snoc e es)
  with inv_reachable [of ds es] show ?case by (simp add: run_snoc pending_inv_step)
qed

section \<open>A failed fetch makes the completion callback throw\<close>

text \<open>
  In every reachable state, a response with a status other than 200 for any active
  request makes the completion callback throw.
\<close>

lemma failed_fetch_always_throws:
  assumes "task \<in> set (activeRequests (run ds es init))" and "status resp \<noteq> 200"
  shows "fst (finish ds task resp (run ds es init)) = Some TypeError"
proof -
  let ?s = "run ds es init"
  from assms(1) inv_reachable [of ds es] have l: "task \<in> set (live ?s)"
    by (auto simp: queue_inv_def live_def)
  with pending_inv_reachable [of ds es] obtain item rest where
    w: "waitingList (requestObjs ?s task) = item # rest"
    and g: "getTile ?s (req_x (requestObjs ?s task)) (req_y (requestObjs ?s task)) (req_zoom (requestObjs ?s task)) = None"
    by (auto simp: pending_inv_def neq_Nil_conv)
  from inv_reachable [of ds es] l w have "item_x item = req_x (requestObjs ?s task)"
    "item_y item = req_y (requestObjs ?s task)" "item_zoom item = req_zoom (requestObjs ?s task)"
    by (auto simp: items_inv_def coord_def)
  with g have "getTile ?s (item_x item) (item_y item) (item_zoom item) = None" by simp
  from failed_fetch_throws [OF assms(2) w this] show ?thesis by simp
qed

text \<open>
  Claim C1, on the code. Two callers wait for the coordinate \<open>(0, 0, 0)\<close>, the request is
  admitted, and the response has status 404. No cache entry is created, but the first
  waiting-list item dereferences the \<open>null\<close> that \<open>getTile\<close> returns: the completion
  callback throws a \<open>TypeError\<close>, the second item is never called, and both promises stay
  pending for ever.
\<close>

theorem failed_fetch_type_error:
  "fst (finish id 0 not_found_response (run id [GetOrLoadTile 0 0 0 7, GetOrLoadTile 0 0 0 8, Update] init))
     = Some TypeError
   \<and> getTile (snd (finish id 0 not_found_response
          (run id [GetOrLoadTile 0 0 0 7, GetOrLoadTile 0 0 0 8, Update] init))) 0 0 0 = None
   \<and> promises (snd (finish id 0 not_found_response
          (run id [GetOrLoadTile 0 0 0 7, GetOrLoadTile 0 0 0 8, Update] init))) 0 = Pending
   \<and> promises (snd (finish id 0 not_found_response
          (run id [GetOrLoadTile 0 0 0 7, GetOrLoadTile 0 0 0 8, Update] init))) 1 = Pending
   \<and> map item_promise (waitingList (requestObjs
          (run id [GetOrLoadTile 0 0 0 7, GetOrLoadTile 0 0 0 8, Update] init) 0)) = [0, 1]
   \<and> activeRequests (run id [GetOrLoadTile 0 0 0 7, GetOrLoadTile 0 0 0 8, Update] init) = [0]"
  by (simp add: eval_defs)

end
